theory Spec2Isabelle
  imports Main "HOL-Library.AList" "HOL-Library.Multiset"
begin

section \<open>JavaScript values\<close>

text \<open>
  The values the two scripts handle are the ones \<open>JSON.parse\<close> yields, plus \<open>undefined\<close>
  (what reading a missing property gives). Numbers are modelled as integers: the counts of
  the hosting API are integers, and \<open>NaN\<close> is written \<open>None\<close> where a coercion can produce it.
  A string is a list of code units below 256. An object is an association list in insertion
  order; a property read takes the first entry of a key.
\<close>

datatype jv =
    JUndef
  | JNull
  | JBool bool
  | JNum int
  | JStr string
  | JArr "jv list"
  | JObj "(string \<times> jv) list"

text \<open>\<open>ToBoolean\<close>, as used by \<open>||\<close>, \<open>&&\<close>, \<open>?:\<close>, \<open>!\<close> and \<open>if\<close>.\<close>

fun truthy :: "jv \<Rightarrow> bool" where
  "truthy JUndef = False"
| "truthy JNull = False"
| "truthy (JBool b) = b"
| "truthy (JNum n) = (n \<noteq> 0)"
| "truthy (JStr s) = (s \<noteq> [])"
| "truthy (JArr xs) = True"
| "truthy (JObj kvs) = True"

text \<open>\<open>a || b\<close> and \<open>a && b\<close>.\<close>

definition js_or :: "jv \<Rightarrow> jv \<Rightarrow> jv" where
  "js_or a b = (if truthy a then a else b)"

definition js_and :: "jv \<Rightarrow> jv \<Rightarrow> jv" where
  "js_and a b = (if truthy a then b else a)"

text \<open>\<open>undefined\<close> and \<open>null\<close>: reading a property of either throws a \<open>TypeError\<close>.\<close>

fun nullish :: "jv \<Rightarrow> bool" where
  "nullish JUndef = True"
| "nullish JNull = True"
| "nullish v = False"

text \<open>
  The property read \<open>v.k\<close>, for the property names the scripts read (data properties and
  \<open>length\<close>). On a nullish value the read throws; every read of the scripts on a value
  that may be nullish is either guarded by a truthiness test, whose outcome then decides
  alone, or preceded by a \<open>nullish\<close> test in the model of the caller, so the value the last
  equation gives for a nullish \<open>v\<close> is never the one that decides.
\<close>

fun js_get :: "jv \<Rightarrow> string \<Rightarrow> jv" where
  "js_get (JObj kvs) k = (case map_of kvs k of Some v \<Rightarrow> v | None \<Rightarrow> JUndef)"
| "js_get (JArr xs) k = (if k = ''length'' then JNum (int (length xs)) else JUndef)"
| "js_get (JStr s) k = (if k = ''length'' then JNum (int (length s)) else JUndef)"
| "js_get v k = JUndef"

text \<open>
  The assignment \<open>p.k = v\<close>: on an object it replaces the value of an existing key in place
  or appends the key; on a primitive it has no effect. The scripts assign to the records
  they have built from object literals only.
\<close>

fun js_set :: "jv \<Rightarrow> string \<Rightarrow> jv \<Rightarrow> jv" where
  "js_set (JObj kvs) k v = JObj (AList.update k v kvs)"
| "js_set p k v = p"

text \<open>Decimal notation of a number, as in a template literal.\<close>

fun digits :: "nat \<Rightarrow> string" where
  "digits n = (if n < 10 then [''0123456789'' ! n]
               else digits (n div 10) @ [''0123456789'' ! (n mod 10)])"

declare digits.simps [simp del]

definition show_int :: "int \<Rightarrow> string" where
  "show_int i = (if i < 0 then CHR ''-'' # digits (nat (- i)) else digits (nat i))"

fun join_comma :: "string list \<Rightarrow> string" where
  "join_comma [] = []"
| "join_comma [s] = s"
| "join_comma (s # ss) = s @ '','' @ join_comma ss"

text \<open>\<open>String(v)\<close>, the conversion a template literal \<open>`${v}`\<close> applies.\<close>

fun to_string :: "jv \<Rightarrow> string" where
  "to_string JUndef = ''undefined''"
| "to_string JNull = ''null''"
| "to_string (JBool b) = (if b then ''true'' else ''false'')"
| "to_string (JNum n) = show_int n"
| "to_string (JStr s) = s"
| "to_string (JArr xs) = join_comma (map (\<lambda>x. if nullish x then [] else to_string x) xs)"
| "to_string (JObj kvs) = ''[object Object]''"

section \<open>The Normalizer\<close>

text \<open>\<open>safeThumbnail\<close> of \<open>generate_projects.js\<close>.\<close>

definition safeThumbnail :: "jv \<Rightarrow> jv" where
  "safeThumbnail fullName = JStr (''https://opengraph.githubassets.com/1/'' @ to_string fullName)"

text \<open>
  The object literal \<open>repoObj\<close> of the generator's main loop, for a repository summary \<open>r\<close>
  (not nullish). It has sixteen keys; \<open>readme_excerpt\<close> and \<open>contributors\<close> are assigned
  afterwards.
\<close>

definition repoObj :: "jv \<Rightarrow> jv" where
  "repoObj r = JObj
    [(''name'', js_get r ''name''),
     (''repo'', js_get r ''html_url''),
     (''desc'', js_or (js_get r ''description'') (JStr [])),
     (''tags'', if truthy (js_and (js_get r ''topics'') (js_get (js_get r ''topics'') ''length''))
                then js_get r ''topics'' else JArr []),
     (''stars'', js_or (js_get r ''stargazers_count'') (JNum 0)),
     (''forks'', js_or (js_get r ''forks_count'') (JNum 0)),
     (''featured'', JBool False),
     (''updated_at'', js_get r ''updated_at''),
     (''created_at'', js_get r ''created_at''),
     (''language'', js_or (js_get r ''language'') (JStr [])),
     (''license'', if truthy (js_get r ''license'')
                   then js_or (js_get (js_get r ''license'') ''spdx_id'') (js_get (js_get r ''license'') ''name'')
                   else JStr []),
     (''thumbnail'', safeThumbnail (js_get r ''full_name'')),
     (''screenshots'', JArr []),
     (''size'', js_or (js_get r ''size'') (JNum 0)),
     (''open_issues_count'', js_or (js_get r ''open_issues_count'') (JNum 0)),
     (''default_branch'', js_or (js_get r ''default_branch'') (JStr ''main''))]"

text \<open>
  The object literal of the mapping in \<open>fetchGitHubRepos\<close> (the client-side fallback): the
  same sixteen keys, followed by \<open>readme_excerpt\<close>. It has no \<open>contributors\<close> key.
\<close>

definition clientObj :: "jv \<Rightarrow> jv" where
  "clientObj r = JObj
    [(''name'', js_get r ''name''),
     (''repo'', js_get r ''html_url''),
     (''desc'', js_or (js_get r ''description'') (JStr [])),
     (''tags'', if truthy (js_and (js_get r ''topics'') (js_get (js_get r ''topics'') ''length''))
                then js_get r ''topics'' else JArr []),
     (''stars'', js_or (js_get r ''stargazers_count'') (JNum 0)),
     (''forks'', js_or (js_get r ''forks_count'') (JNum 0)),
     (''featured'', JBool False),
     (''updated_at'', js_get r ''updated_at''),
     (''created_at'', js_get r ''created_at''),
     (''language'', js_or (js_get r ''language'') (JStr [])),
     (''license'', if truthy (js_get r ''license'')
                   then js_or (js_get (js_get r ''license'') ''spdx_id'') (js_get (js_get r ''license'') ''name'')
                   else JStr []),
     (''thumbnail'', JStr (''https://opengraph.githubassets.com/1/'' @ to_string (js_get r ''full_name''))),
     (''screenshots'', JArr []),
     (''size'', js_or (js_get r ''size'') (JNum 0)),
     (''open_issues_count'', js_or (js_get r ''open_issues_count'') (JNum 0)),
     (''default_branch'', js_or (js_get r ''default_branch'') (JStr ''main'')),
     (''readme_excerpt'', JStr [])]"

section \<open>Regular expressions and \<open>String.prototype.replace\<close>\<close>

text \<open>
  The five regular expressions of \<open>excerptMarkdown\<close> are sequences of three kinds of
  items: a literal character, a lazy star \<open>C*?\<close> over a character class and a greedy plus
  \<open>C+\<close> over a character class.
\<close>

datatype item = Chr char | LazyStar "char \<Rightarrow> bool" | GreedyPlus "char \<Rightarrow> bool"

text \<open>
  The backtracking matcher, anchored at the start of \<open>s\<close>: all the ways the sequence
  matches a prefix of \<open>s\<close>, in the order backtracking tries them; each way is the list of
  the texts its items matched. A lazy star tries the shortest run first, a greedy plus the
  longest.
\<close>

fun matches :: "item list \<Rightarrow> string \<Rightarrow> string list list" where
  "matches [] s = [[]]"
| "matches (Chr c # r) s =
     (case s of [] \<Rightarrow> []
      | x # xs \<Rightarrow> if x = c then map ((#) [c]) (matches r xs) else [])"
| "matches (LazyStar P # r) s =
     concat (map (\<lambda>k. map ((#) (take k s)) (matches r (drop k s)))
                 [0 ..< Suc (length (takeWhile P s))])"
| "matches (GreedyPlus P # r) s =
     concat (map (\<lambda>k. map ((#) (take k s)) (matches r (drop k s)))
                 (rev [1 ..< Suc (length (takeWhile P s))]))"

text \<open>The match the engine reports at this position: the first way, if any.\<close>

definition exec :: "item list \<Rightarrow> string \<Rightarrow> string list option" where
  "exec re s = (case matches re s of [] \<Rightarrow> None | m # ms \<Rightarrow> Some m)"

lemma matches_prefix:
  "m \<in> set (matches re s) \<Longrightarrow> length (concat m) \<le> length s"
proof (induction re s arbitrary: m rule: matches.induct)
  case (1 s)
  then show ?case by simp
next
  case (2 c r s)
  then show ?case by (fastforce split: list.splits if_splits)
next
  case (3 P r s)
  from "3.prems" obtain k where k: "k \<in> set [0 ..< Suc (length (takeWhile P s))]"
    and "m \<in> set (map ((#) (take k s)) (matches r (drop k s)))"
    by (auto simp only: matches.simps set_concat set_map)
  then obtain m' where m': "m' \<in> set (matches r (drop k s))" and m: "m = take k s # m'"
    by auto
  have "k \<le> length s"
    using k length_takeWhile_le [of P s] by auto
  moreover have "length (concat m') \<le> length (drop k s)"
    using "3.IH" [OF k m'] .
  ultimately show ?case using m by simp
next
  case (4 P r s)
  from "4.prems" obtain k where k: "k \<in> set (rev [1 ..< Suc (length (takeWhile P s))])"
    and "m \<in> set (map ((#) (take k s)) (matches r (drop k s)))"
    by (auto simp only: matches.simps set_concat set_map)
  then obtain m' where m': "m' \<in> set (matches r (drop k s))" and m: "m = take k s # m'"
    by auto
  have "k \<le> length s"
    using k length_takeWhile_le [of P s] by auto
  moreover have "length (concat m') \<le> length (drop k s)"
    using "4.IH" [OF k m'] .
  ultimately show ?case using m by simp
qed

lemma exec_prefix: "exec re s = Some m \<Longrightarrow> length (concat m) \<le> length s"
  using matches_prefix [of m re s] by (auto simp: exec_def split: list.splits)

text \<open>
  \<open>s.replace(re, f)\<close> for a regular expression with the \<open>g\<close> flag: scan from the left;
  where the expression matches, emit the replacement and go on after the match (after one
  more character when the match is empty); elsewhere copy the character.
\<close>

function replace_all :: "item list \<Rightarrow> (string list \<Rightarrow> string) \<Rightarrow> string \<Rightarrow> string" where
  "replace_all re f s =
     (case exec re s of
        Some m \<Rightarrow>
          (if concat m = []
           then (case s of [] \<Rightarrow> f m | c # cs \<Rightarrow> f m @ c # replace_all re f cs)
           else f m @ replace_all re f (drop (length (concat m)) s))
      | None \<Rightarrow> (case s of [] \<Rightarrow> [] | c # cs \<Rightarrow> c # replace_all re f cs))"
  by pat_completeness auto
termination
proof (relation "measure (\<lambda>(re, f, s). length s)")
  show "wf (measure (\<lambda>(re, f, s). length s))" by simp
next
  fix re :: "item list" and f :: "string list \<Rightarrow> string" and s m c cs
  assume "exec re s = Some m" "concat m = []" "s = c # cs"
  then show "((re, f, cs), (re, f, s)) \<in> measure (\<lambda>(re, f, s). length s)" by simp
next
  fix re :: "item list" and f :: "string list \<Rightarrow> string" and s m
  assume e: "exec re s = Some m" and n: "concat m \<noteq> []"
  define l where "l = length (concat m)"
  have "l \<le> length s" unfolding l_def using e by (rule exec_prefix)
  moreover have "0 < l" unfolding l_def using n by blast
  ultimately have "length (drop l s) < length s" by simp
  then show "((re, f, drop (length (concat m)) s), (re, f, s)) \<in> measure (\<lambda>(re, f, s). length s)"
    unfolding l_def by simp
next
  fix re :: "item list" and f :: "string list \<Rightarrow> string" and s c cs
  assume "exec re s = None" "s = c # cs"
  then show "((re, f, cs), (re, f, s)) \<in> measure (\<lambda>(re, f, s). length s)" by simp
qed

declare replace_all.simps [simp del]

section \<open>The excerpt derivation\<close>

text \<open>
  Line terminators and white space among the code units below 256: \<open>.\<close> matches every
  character but a line terminator, \<open>[\s\S]\<close> matches every character, and \<open>trim\<close> removes
  white space and line terminators.
\<close>

definition is_line_terminator :: "char \<Rightarrow> bool" where
  "is_line_terminator c = (c = CHR 0x0A \<or> c = CHR 0x0D)"

definition dot :: "char \<Rightarrow> bool" where
  "dot c = (\<not> is_line_terminator c)"

definition any_char :: "char \<Rightarrow> bool" where
  "any_char c = True"

definition is_space :: "char \<Rightarrow> bool" where
  "is_space c = (c = CHR 0x09 \<or> c = CHR 0x0A \<or> c = CHR 0x0B \<or> c = CHR 0x0C \<or> c = CHR 0x0D
                 \<or> c = CHR 0x20 \<or> c = CHR 0xA0)"

definition trim :: "string \<Rightarrow> string" where
  "trim s = rev (dropWhile is_space (rev (dropWhile is_space s)))"

text \<open>\<open>/!\[.*?\]\(.*?\)/\<close>, \<open>/```[\s\S]*?```/\<close>, \<open>/#.+/\<close>, \<open>/\[(.*?)\]\(.*?\)/\<close> and \<open>/\r\n/\<close>.\<close>

definition image_re :: "item list" where
  "image_re = [Chr CHR ''!'', Chr CHR ''['', LazyStar dot, Chr CHR '']'', Chr CHR ''('',
               LazyStar dot, Chr CHR '')'']"

definition fence_re :: "item list" where
  "fence_re = [Chr CHR 0x60, Chr CHR 0x60, Chr CHR 0x60, LazyStar any_char,
               Chr CHR 0x60, Chr CHR 0x60, Chr CHR 0x60]"

definition heading_re :: "item list" where
  "heading_re = [Chr CHR ''#'', GreedyPlus dot]"

definition link_re :: "item list" where
  "link_re = [Chr CHR ''['', LazyStar dot, Chr CHR '']'', Chr CHR ''('', LazyStar dot, Chr CHR '')'']"

definition crlf_re :: "item list" where
  "crlf_re = [Chr CHR 0x0D, Chr CHR 0x0A]"

text \<open>The replacement \<open>'$1'\<close> of the link expression: the text of its only group.\<close>

definition group1 :: "string list \<Rightarrow> string" where
  "group1 m = (case m of a # g # rest \<Rightarrow> g | _ \<Rightarrow> [])"

text \<open>The six cleaning steps of \<open>excerptMarkdown\<close>, one definition per statement.\<close>

definition strip_images :: "string \<Rightarrow> string" where
  "strip_images md = replace_all image_re (\<lambda>m. []) md"

definition strip_fences :: "string \<Rightarrow> string" where
  "strip_fences t = replace_all fence_re (\<lambda>m. []) t"

definition strip_headings :: "string \<Rightarrow> string" where
  "strip_headings t = replace_all heading_re (\<lambda>m. []) t"

definition collapse_links :: "string \<Rightarrow> string" where
  "collapse_links t = replace_all link_re group1 t"

definition normalize_newlines :: "string \<Rightarrow> string" where
  "normalize_newlines t = replace_all crlf_re (\<lambda>m. [CHR 0x0A]) t"

definition cleaned :: "string \<Rightarrow> string" where
  "cleaned md = trim (normalize_newlines (collapse_links (strip_headings (strip_fences (strip_images md)))))"

text \<open>\<open>t.slice(0, e)\<close>: a negative end counts from the end of the string.\<close>

definition slice0 :: "string \<Rightarrow> int \<Rightarrow> string" where
  "slice0 t e = (if e < 0 then take (nat (int (length t) + e)) t else take (nat e) t)"

text \<open>\<open>excerptMarkdown(md, maxLen)\<close>; the generator calls it with \<open>maxLen = 1400\<close>.\<close>

definition excerptMarkdown :: "string \<Rightarrow> int \<Rightarrow> string" where
  "excerptMarkdown md maxLen =
     (if md = [] then []
      else let t = cleaned md
           in if int (length t) \<le> maxLen then t else slice0 t (maxLen - 3) @ ''...'')"

section \<open>The network\<close>

text \<open>
  The hosting API is an oracle from the URL of a request to its outcome: \<open>fetch\<close> either
  rejects (a transport failure) or resolves to a response with a status, a body as text
  (\<open>res.text()\<close>) and the body as parsed JSON (\<open>res.json()\<close>; \<open>None\<close> when the body is not
  JSON, where \<open>res.json()\<close> throws). The request headers are fixed by the call site and
  are not part of the key.
\<close>

record response =
  status :: nat
  body_text :: string
  body_json :: "jv option"

datatype fetched = Rejected | Resolved response

type_synonym net = "string \<Rightarrow> fetched"

datatype error =
    NetworkFailure
  | HttpError nat string
  | SyntaxError
  | TypeError
  | Thrown string

text \<open>\<open>res.ok\<close>: the status is in the range 200 to 299.\<close>

definition ok :: "response \<Rightarrow> bool" where
  "ok res = (200 \<le> status res \<and> status res \<le> 299)"

text \<open>\<open>fetchJson\<close> and \<open>fetchRaw\<close> of \<open>generate_projects.js\<close>; \<open>null\<close> is \<open>None\<close>.\<close>

definition fetchJson :: "net \<Rightarrow> string \<Rightarrow> error + jv" where
  "fetchJson net url =
     (case net url of
        Rejected \<Rightarrow> Inl NetworkFailure
      | Resolved res \<Rightarrow>
          if \<not> ok res then Inl (HttpError (status res) url)
          else (case body_json res of None \<Rightarrow> Inl SyntaxError | Some v \<Rightarrow> Inr v))"

definition fetchRaw :: "net \<Rightarrow> string \<Rightarrow> error + string option" where
  "fetchRaw net url =
     (case net url of
        Rejected \<Rightarrow> Inl NetworkFailure
      | Resolved res \<Rightarrow> if \<not> ok res then Inr None else Inr (Some (body_text res)))"

section \<open>The Collector\<close>

text \<open>The URL of page \<open>page\<close> of the listing, with \<open>perPage = 100\<close>.\<close>

definition perPage :: nat where
  "perPage = 100"

definition repos_url :: "string \<Rightarrow> nat \<Rightarrow> string" where
  "repos_url user page =
     ''https://api.github.com/users/'' @ user @ ''/repos?per_page='' @ digits perPage
       @ ''&page='' @ digits page @ ''&sort=updated''"

text \<open>
  The spread \<open>...data\<close> of \<open>all.push(...data)\<close>: the elements of an array, the characters
  of a string, a \<open>TypeError\<close> for a value that is not iterable.
\<close>

fun spread :: "jv \<Rightarrow> error + jv list" where
  "spread (JArr xs) = Inr xs"
| "spread (JStr s) = Inr (map (\<lambda>c. JStr [c]) s)"
| "spread v = Inl TypeError"

text \<open>The test \<open>data.length < perPage\<close>; it is false when \<open>data.length\<close> is not a number.\<close>

definition short_page :: "jv \<Rightarrow> bool" where
  "short_page data = (case js_get data ''length'' of JNum n \<Rightarrow> n < int perPage | _ \<Rightarrow> False)"

text \<open>
  The loop of \<open>listRepos\<close>, from page \<open>page\<close> with the items \<open>all\<close> gathered so far and the
  log of the requests issued so far. The loop has no bound: against an upstream whose
  every page is full it never returns, which is the value \<open>None\<close>.
\<close>

partial_function (option) listRepos_from ::
  "net \<Rightarrow> string \<Rightarrow> nat \<Rightarrow> jv list \<Rightarrow> string list \<Rightarrow> ((error + jv list) \<times> string list) option" where
  "listRepos_from net user page all log =
     (case fetchJson net (repos_url user page) of
        Inl e \<Rightarrow> Some (Inl e, log @ [repos_url user page])
      | Inr data \<Rightarrow>
          (case spread data of
             Inl e \<Rightarrow> Some (Inl e, log @ [repos_url user page])
           | Inr items \<Rightarrow>
               if short_page data then Some (Inr (all @ items), log @ [repos_url user page])
               else listRepos_from net user (page + 1) (all @ items) (log @ [repos_url user page])))"

definition listRepos :: "net \<Rightarrow> string \<Rightarrow> ((error + jv list) \<times> string list) option" where
  "listRepos net user = listRepos_from net user 1 [] []"

section \<open>The Enricher\<close>

text \<open>\<open>getRepoReadme\<close>: the raw README, or \<open>null\<close> when the request fails in any way.\<close>

definition readme_url :: "jv \<Rightarrow> string" where
  "readme_url fullName = ''https://api.github.com/repos/'' @ to_string fullName @ ''/readme''"

definition getRepoReadme :: "net \<Rightarrow> jv \<Rightarrow> string option" where
  "getRepoReadme net fullName =
     (case fetchRaw net (readme_url fullName) of
        Inl e \<Rightarrow> None
      | Inr raw \<Rightarrow> raw)"

text \<open>
  \<open>getContributors\<close>: the mapped contributor list, or \<open>[]\<close> when the request fails or
  the mapping throws (the data is not an array, or an element is \<open>null\<close>).
\<close>

definition contributor :: "jv \<Rightarrow> jv" where
  "contributor c = JObj
    [(''login'', js_get c ''login''),
     (''avatar'', js_get c ''avatar_url''),
     (''url'', js_get c ''html_url''),
     (''contributions'', js_get c ''contributions'')]"

definition contributors_url :: "jv \<Rightarrow> string" where
  "contributors_url fullName =
     ''https://api.github.com/repos/'' @ to_string fullName @ ''/contributors?per_page=10''"

definition getContributors :: "net \<Rightarrow> jv \<Rightarrow> jv" where
  "getContributors net fullName =
     (case fetchJson net (contributors_url fullName) of
        Inl e \<Rightarrow> JArr []
      | Inr data \<Rightarrow>
          (case data of
             JArr cs \<Rightarrow> if list_ex nullish cs then JArr [] else JArr (map contributor cs)
           | _ \<Rightarrow> JArr []))"

section \<open>The generator's main loop\<close>

text \<open>
  One iteration of the loop over \<open>repos\<close>, for a summary \<open>r\<close> that is not nullish: the
  object literal, then the two best-effort assignments.
\<close>

definition project_of :: "net \<Rightarrow> jv \<Rightarrow> jv" where
  "project_of net r =
     (let full = js_get r ''full_name'';
          readme = getRepoReadme net full;
          excerpt = (case readme of
                       Some md \<Rightarrow> if md \<noteq> [] then excerptMarkdown md 1400 else []
                     | None \<Rightarrow> [])
      in js_set (js_set (repoObj r) ''readme_excerpt'' (JStr excerpt))
           ''contributors'' (getContributors net full))"

text \<open>The loop: reading \<open>r.full_name\<close> of a nullish element throws a \<open>TypeError\<close>.\<close>

fun collect :: "net \<Rightarrow> jv list \<Rightarrow> error + jv list" where
  "collect net [] = Inr []"
| "collect net (r # rs) =
     (if nullish r then Inl TypeError
      else case collect net rs of Inl e \<Rightarrow> Inl e | Inr ps \<Rightarrow> Inr (project_of net r # ps))"

section \<open>The Ranker\<close>

text \<open>
  \<open>ToNumber\<close>, with \<open>None\<close> for \<open>NaN\<close>. The conversion of a string to a number is the
  parameter \<open>sn\<close>; an array is converted through its string.
\<close>

fun to_number :: "(string \<Rightarrow> int option) \<Rightarrow> jv \<Rightarrow> int option" where
  "to_number sn JUndef = None"
| "to_number sn JNull = Some 0"
| "to_number sn (JBool b) = Some (if b then 1 else 0)"
| "to_number sn (JNum n) = Some n"
| "to_number sn (JStr s) = sn s"
| "to_number sn (JArr xs) = sn (to_string (JArr xs))"
| "to_number sn (JObj kvs) = None"

text \<open>
  The comparator \<open>(a, b) => (b.stars || 0) - (a.stars || 0)\<close>. A \<open>NaN\<close> result counts as
  \<open>0\<close> in \<open>sort\<close>.
\<close>

definition compareStars :: "(string \<Rightarrow> int option) \<Rightarrow> jv \<Rightarrow> jv \<Rightarrow> int" where
  "compareStars sn a b =
     (case (to_number sn (js_or (js_get b ''stars'') (JNum 0)),
            to_number sn (js_or (js_get a ''stars'') (JNum 0))) of
        (Some x, Some y) \<Rightarrow> x - y
      | _ \<Rightarrow> 0)"

text \<open>
  \<open>Array.prototype.sort\<close> with a comparator, which the language defines to be stable: an
  insertion sort that puts an element in front of the first later element it does not
  have to follow.
\<close>

fun insert_by :: "('a \<Rightarrow> 'a \<Rightarrow> int) \<Rightarrow> 'a \<Rightarrow> 'a list \<Rightarrow> 'a list" where
  "insert_by cmp x [] = [x]"
| "insert_by cmp x (y # ys) = (if cmp x y \<le> 0 then x # y # ys else y # insert_by cmp x ys)"

definition js_sort :: "('a \<Rightarrow> 'a \<Rightarrow> int) \<Rightarrow> 'a list \<Rightarrow> 'a list" where
  "js_sort cmp xs = foldr (insert_by cmp) xs []"

text \<open>
  The two statements both scripts end with: sort by stars, descending, then set
  \<open>featured\<close> on the first three elements of the sorted array.
\<close>

definition rank :: "(string \<Rightarrow> int option) \<Rightarrow> jv list \<Rightarrow> jv list" where
  "rank sn projects =
     (let sorted = js_sort (compareStars sn) projects
      in map (\<lambda>p. js_set p ''featured'' (JBool True)) (take 3 sorted) @ drop 3 sorted)"

text \<open>
  The generator: list, enrich and normalize, rank. The result is the \<open>projects\<close> array
  of the document it writes.
\<close>

definition generate :: "(string \<Rightarrow> int option) \<Rightarrow> net \<Rightarrow> string \<Rightarrow> (error + jv list) option" where
  "generate sn net user =
     (case listRepos net user of
        None \<Rightarrow> None
      | Some (Inl e, log) \<Rightarrow> Some (Inl e)
      | Some (Inr repos, log) \<Rightarrow>
          (case collect net repos of
             Inl e \<Rightarrow> Some (Inl e)
           | Inr projects \<Rightarrow> Some (Inr (rank sn projects))))"

section \<open>The client-side fallback\<close>

text \<open>\<open>encodeURIComponent\<close> on code units below 256: everything but the unreserved
  characters is written as the percent-encoded bytes of its UTF-8 form.\<close>

definition unreserved :: "char \<Rightarrow> bool" where
  "unreserved c = (c \<in> set (''ABCDEFGHIJKLMNOPQRSTUVWXYZabcdefghijklmnopqrstuvwxyz0123456789''
                             @ ''-_.!~*()'' @ [CHR 0x27]))"

definition percent :: "nat \<Rightarrow> string" where
  "percent b = [CHR ''%'', ''0123456789ABCDEF'' ! (b div 16), ''0123456789ABCDEF'' ! (b mod 16)]"

definition encode_char :: "char \<Rightarrow> string" where
  "encode_char c =
     (if unreserved c then [c]
      else if of_char c < (128 :: nat) then percent (of_char c)
      else percent (192 + of_char c div 64) @ percent (128 + of_char c mod 64))"

definition encodeURIComponent :: "string \<Rightarrow> string" where
  "encodeURIComponent s = concat (map encode_char s)"

definition client_url :: "string \<Rightarrow> string" where
  "client_url username =
     ''https://api.github.com/users/'' @ encodeURIComponent username @ ''/repos?per_page=100&sort=updated''"

text \<open>
  \<open>fetchGitHubRepos\<close> of the client script, with the log of the requests it issues. Only
  the statuses 403 and 404 are rejected before the body is read.
\<close>

definition fetchGitHubRepos ::
  "(string \<Rightarrow> int option) \<Rightarrow> net \<Rightarrow> string \<Rightarrow> (error + jv list) \<times> string list" where
  "fetchGitHubRepos sn net username =
     ((case net (client_url username) of
         Rejected \<Rightarrow> Inl NetworkFailure
       | Resolved res \<Rightarrow>
           if status res = 403
           then Inl (Thrown ''GitHub API rate limit hit (client-side). Provide token or run generator locally.'')
           else if status res = 404 then Inl (Thrown (''GitHub user not found: '' @ username))
           else (case body_json res of
                   None \<Rightarrow> Inl SyntaxError
                 | Some data \<Rightarrow>
                     (case data of
                        JArr rs \<Rightarrow>
                          if list_ex nullish rs then Inl TypeError
                          else Inr (rank sn (map clientObj rs))
                      | _ \<Rightarrow> Inl (Thrown ''Unexpected GitHub response'')))),
      [client_url username])"

text \<open>
  \<open>matches_nowhere re s\<close>: the expression matches at no position of \<open>s\<close>, that is,
  \<open>re.test(s)\<close> is false. \<open>crcrlf_re\<close> is \<open>/\r\r\n/\<close>, used to say that a text has no
  carriage return in front of a CR LF pair.
\<close>

fun matches_nowhere :: "item list \<Rightarrow> string \<Rightarrow> bool" where
  "matches_nowhere re [] = (exec re [] = None)"
| "matches_nowhere re (c # cs) = (exec re (c # cs) = None \<and> matches_nowhere re cs)"

definition crcrlf_re :: "item list" where
  "crcrlf_re = [Chr CHR 0x0D, Chr CHR 0x0D, Chr CHR 0x0A]"

text \<open>Two README texts used as concrete inputs: a short one with markup, a long plain one.\<close>

definition readme_short :: string where
  "readme_short = ''# Title'' @ [CHR 0x0A] @ ''see [docs](http://x) ![i](u)''"

definition readme_long :: string where
  "readme_long = replicate 1500 CHR ''a''"

text \<open>Two plain texts: one with a CR LF line ending, one with CR CR LF.\<close>

definition text_crlf :: string where
  "text_crlf = ''plain text'' @ [CHR 0x0D, CHR 0x0A] @ ''second line''"

definition text_crcrlf :: string where
  "text_crcrlf = [CHR ''a'', CHR 0x0D, CHR 0x0D, CHR 0x0A, CHR ''b'']"

section \<open>Well-formed summaries and records\<close>

text \<open>Type tests on values.\<close>

fun is_str :: "jv \<Rightarrow> bool" where
  "is_str (JStr s) = True"
| "is_str v = False"

fun is_bool :: "jv \<Rightarrow> bool" where
  "is_bool (JBool b) = True"
| "is_bool v = False"

fun is_count :: "jv \<Rightarrow> bool" where
  "is_count (JNum n) = (0 \<le> n)"
| "is_count v = False"

fun is_arr :: "jv \<Rightarrow> bool" where
  "is_arr (JArr xs) = True"
| "is_arr v = False"

fun is_str_list :: "jv \<Rightarrow> bool" where
  "is_str_list (JArr xs) = list_all is_str xs"
| "is_str_list v = False"

text \<open>
  A repository summary as the hosting API sends it: an object with the name, the full
  name, the URL and the two timestamps as strings; each count a non-negative number or
  left out; \<open>description\<close>, \<open>language\<close> and \<open>default_branch\<close> a string or left out;
  \<open>topics\<close> an array of strings or left out; \<open>license\<close> left out or an object with a
  name and possibly an SPDX identifier. Left out means missing or \<open>null\<close>.
\<close>

definition opt_str :: "jv \<Rightarrow> bool" where
  "opt_str v = (nullish v \<or> is_str v)"

definition opt_count :: "jv \<Rightarrow> bool" where
  "opt_count v = (nullish v \<or> is_count v)"

definition wf_license :: "jv \<Rightarrow> bool" where
  "wf_license v =
     (nullish v \<or>
      (case v of JObj kvs \<Rightarrow> opt_str (js_get v ''spdx_id'') \<and> is_str (js_get v ''name'')
       | _ \<Rightarrow> False))"

definition wf_summary :: "jv \<Rightarrow> bool" where
  "wf_summary r =
     (case r of
        JObj kvs \<Rightarrow>
          is_str (js_get r ''name'') \<and> is_str (js_get r ''full_name'') \<and>
          is_str (js_get r ''html_url'') \<and> is_str (js_get r ''updated_at'') \<and>
          is_str (js_get r ''created_at'') \<and>
          opt_count (js_get r ''stargazers_count'') \<and> opt_count (js_get r ''forks_count'') \<and>
          opt_count (js_get r ''size'') \<and> opt_count (js_get r ''open_issues_count'') \<and>
          opt_str (js_get r ''description'') \<and> opt_str (js_get r ''language'') \<and>
          opt_str (js_get r ''default_branch'') \<and>
          (nullish (js_get r ''topics'') \<or> is_str_list (js_get r ''topics'')) \<and>
          wf_license (js_get r ''license'')
      | _ \<Rightarrow> False)"

text \<open>
  The fields of a Project Record, present and of the right type. \<open>base_fields_ok\<close> covers
  the seventeen fields other than \<open>contributors\<close>; a contributor is an object with exactly
  the four keys the generator writes, three strings and a count.
\<close>

definition base_fields_ok :: "jv \<Rightarrow> bool" where
  "base_fields_ok p =
     (is_str (js_get p ''name'') \<and> is_str (js_get p ''repo'') \<and> is_str (js_get p ''desc'') \<and>
      is_str_list (js_get p ''tags'') \<and> is_count (js_get p ''stars'') \<and>
      is_count (js_get p ''forks'') \<and> is_bool (js_get p ''featured'') \<and>
      is_str (js_get p ''updated_at'') \<and> is_str (js_get p ''created_at'') \<and>
      is_str (js_get p ''language'') \<and> is_str (js_get p ''license'') \<and>
      is_str (js_get p ''thumbnail'') \<and> is_arr (js_get p ''screenshots'') \<and>
      is_count (js_get p ''size'') \<and> is_count (js_get p ''open_issues_count'') \<and>
      is_str (js_get p ''default_branch'') \<and> is_str (js_get p ''readme_excerpt''))"

fun is_contributor :: "jv \<Rightarrow> bool" where
  "is_contributor (JObj kvs) =
     (map fst kvs = [''login'', ''avatar'', ''url'', ''contributions''] \<and>
      is_str (js_get (JObj kvs) ''login'') \<and> is_str (js_get (JObj kvs) ''avatar'') \<and>
      is_str (js_get (JObj kvs) ''url'') \<and> is_count (js_get (JObj kvs) ''contributions''))"
| "is_contributor v = False"

fun is_contributor_list :: "jv \<Rightarrow> bool" where
  "is_contributor_list (JArr cs) = list_all is_contributor cs"
| "is_contributor_list v = False"

definition record_ok :: "jv \<Rightarrow> bool" where
  "record_ok p = (base_fields_ok p \<and> is_contributor_list (js_get p ''contributors''))"

text \<open>
  A contributor as the hosting API sends it, and a network whose answer to the contributor
  request of a repository, when it is a JSON array, holds such contributors only.
\<close>

definition wf_contributor :: "jv \<Rightarrow> bool" where
  "wf_contributor c =
     (is_str (js_get c ''login'') \<and> is_str (js_get c ''avatar_url'') \<and>
      is_str (js_get c ''html_url'') \<and> is_count (js_get c ''contributions''))"

definition contributors_typed :: "net \<Rightarrow> jv \<Rightarrow> bool" where
  "contributors_typed net fullName =
     (case fetchJson net (contributors_url fullName) of
        Inr (JArr cs) \<Rightarrow> list_all wf_contributor cs
      | _ \<Rightarrow> True)"


text \<open>
  Sample summaries: one with only the fields the hosting API always sends, one with the
  optional fields too.
\<close>

definition sample_repo :: "string \<Rightarrow> int \<Rightarrow> jv" where
  "sample_repo name stars = JObj
    [(''name'', JStr name),
     (''full_name'', JStr (''maryamali27/'' @ name)),
     (''html_url'', JStr (''https://github.com/maryamali27/'' @ name)),
     (''stargazers_count'', JNum stars),
     (''forks_count'', JNum 0),
     (''updated_at'', JStr ''2024-05-01T10:00:00Z''),
     (''created_at'', JStr ''2023-01-15T08:30:00Z''),
     (''size'', JNum 12),
     (''open_issues_count'', JNum 0)]"

definition sample_repo_full :: jv where
  "sample_repo_full = JObj
    [(''name'', JStr ''portfolio''),
     (''full_name'', JStr ''maryamali27/portfolio''),
     (''html_url'', JStr ''https://github.com/maryamali27/portfolio''),
     (''description'', JStr ''Personal site''),
     (''topics'', JArr [JStr ''portfolio'', JStr ''javascript'']),
     (''stargazers_count'', JNum 5),
     (''forks_count'', JNum 1),
     (''updated_at'', JStr ''2024-05-01T10:00:00Z''),
     (''created_at'', JStr ''2023-01-15T08:30:00Z''),
     (''language'', JStr ''JavaScript''),
     (''license'', JObj [(''key'', JStr ''mit''), (''name'', JStr ''MIT License''), (''spdx_id'', JStr ''MIT'')]),
     (''size'', JNum 12),
     (''open_issues_count'', JNum 0),
     (''default_branch'', JStr ''master'')]"

text \<open>Normalized sample collections: with a tie in stars, with distinct stars, and a short one.\<close>

definition projects_tied :: "jv list" where
  "projects_tied = map repoObj [sample_repo ''a'' 5, sample_repo ''b'' 7, sample_repo ''c'' 5, sample_repo ''d'' 0]"

definition projects_distinct :: "jv list" where
  "projects_distinct = map repoObj [sample_repo ''a'' 5, sample_repo ''b'' 7, sample_repo ''c'' 1, sample_repo ''d'' 9]"

definition projects_pair :: "jv list" where
  "projects_pair = map repoObj [sample_repo ''a'' 5, sample_repo ''b'' 7]"

text \<open>A network on which every request fails in transport.\<close>

definition offline_net :: net where
  "offline_net url = Rejected"

text \<open>
  For the statements about the Ranker: whether a value is a number, the number it is, and
  the star count of a record whose \<open>stars\<close> field is a number.
\<close>

fun is_num :: "jv \<Rightarrow> bool" where
  "is_num (JNum n) = True"
| "is_num v = False"

fun num_of :: "jv \<Rightarrow> int" where
  "num_of (JNum n) = n"
| "num_of v = 0"

definition stars_of :: "jv \<Rightarrow> int" where
  "stars_of p = num_of (js_get p ''stars'')"

text \<open>
  Two mock upstreams for the account \<open>maryamali27\<close>: one serves pages of 100, 100 and 37
  items, the other serves one full page and answers the second request with status 500.
\<close>

definition mock_items :: "nat \<Rightarrow> nat \<Rightarrow> jv list" where
  "mock_items p k = map (\<lambda>i. sample_repo (''repo-'' @ digits (100 * p + i)) (int i)) [0 ..< k]"

definition mock_pages :: "nat \<Rightarrow> jv list" where
  "mock_pages p = (if p = 1 \<or> p = 2 then mock_items p 100 else if p = 3 then mock_items p 37 else [])"

definition json_response :: "jv \<Rightarrow> fetched" where
  "json_response v = Resolved \<lparr>status = 200, body_text = [], body_json = Some v\<rparr>"

definition mock_upstream :: net where
  "mock_upstream url =
     (if url = ''https://api.github.com/users/maryamali27/repos?per_page=100&page=1&sort=updated''
      then json_response (JArr (mock_pages 1))
      else if url = ''https://api.github.com/users/maryamali27/repos?per_page=100&page=2&sort=updated''
      then json_response (JArr (mock_pages 2))
      else if url = ''https://api.github.com/users/maryamali27/repos?per_page=100&page=3&sort=updated''
      then json_response (JArr (mock_pages 3))
      else Rejected)"

definition mock_failing :: net where
  "mock_failing url =
     (if url = ''https://api.github.com/users/maryamali27/repos?per_page=100&page=1&sort=updated''
      then json_response (JArr (mock_pages 1))
      else if url = ''https://api.github.com/users/maryamali27/repos?per_page=100&page=2&sort=updated''
      then Resolved \<lparr>status = 500, body_text = [], body_json = None\<rparr>
      else Rejected)"


text \<open>
  A network for an account with the single repository \<open>portfolio\<close>: the client's listing
  request returns its summary, the request for its contributors returns one contributor,
  every other request fails in transport.
\<close>

definition single_repo_net :: net where
  "single_repo_net url =
     (if url = ''https://api.github.com/users/maryamali27/repos?per_page=100&sort=updated''
      then json_response (JArr [sample_repo ''portfolio'' 5])
      else if url = ''https://api.github.com/repos/maryamali27/portfolio/contributors?per_page=10''
      then json_response (JArr [JObj [(''login'', JStr ''maryamali27''),
                                      (''avatar_url'', JStr ''https://avatars.githubusercontent.com/u/1''),
                                      (''html_url'', JStr ''https://github.com/maryamali27''),
                                      (''contributions'', JNum 42)]])
      else Rejected)"

text \<open>
  A network for the client: the listing without a page parameter returns the first page
  of the account served by \<open>mock_upstream\<close>.
\<close>

definition mock_client :: net where
  "mock_client url =
     (if url = client_url ''maryamali27'' then json_response (JArr (mock_pages 1))
      else mock_upstream url)"

section \<open>Properties of the excerpt derivation\<close>

lemma cleaned_Nil: "cleaned [] = []"
  by (simp add: cleaned_def strip_images_def strip_fences_def strip_headings_def collapse_links_def
      normalize_newlines_def trim_def replace_all.simps exec_def image_re_def fence_re_def heading_re_def
      link_re_def crlf_re_def)

lemma exec_Chr_Nil: "exec (Chr c # r) [] = None"
  by (simp add: exec_def)

lemma exec_Chr_other: "a \<noteq> c \<Longrightarrow> exec (Chr c # r) (a # s) = None"
  by (simp add: exec_def)

lemma replace_all_Nil: "exec re [] = None \<Longrightarrow> replace_all re f [] = []"
  by (subst replace_all.simps) simp

lemma replace_all_None: "exec re (c # cs) = None \<Longrightarrow> replace_all re f (c # cs) = c # replace_all re f cs"
  by (subst replace_all.simps) simp

lemma replace_all_Some:
  "exec re s = Some m \<Longrightarrow> concat m \<noteq> [] \<Longrightarrow>
   replace_all re f s = f m @ replace_all re f (drop (length (concat m)) s)"
  by (subst replace_all.simps) auto

lemma replace_all_absent: "c \<notin> set s \<Longrightarrow> replace_all (Chr c # r) f s = s"
proof (induction s)
  case Nil
  then show ?case by (simp add: replace_all_Nil exec_Chr_Nil)
next
  case (Cons a s)
  then have "a \<noteq> c" by auto
  then have "exec (Chr c # r) (a # s) = None" by (rule exec_Chr_other)
  then show ?case using Cons by (simp add: replace_all_None)
qed

lemma trim_id:
  assumes "s = [] \<or> (\<not> is_space (hd s) \<and> \<not> is_space (last s))"
  shows "trim s = s"
proof (cases s)
  case Nil
  then show ?thesis by (simp add: trim_def)
next
  case (Cons a t)
  with assms have a: "\<not> is_space a" and l: "\<not> is_space (last s)" by auto
  have "dropWhile is_space s = s" using a Cons by simp
  moreover obtain x xs where r: "rev s = x # xs" using Cons by (cases "rev s") auto
  have "hd (rev s) = x" using r by simp
  then have "x = last s" by (simp add: hd_rev)
  then have "dropWhile is_space (x # xs) = x # xs" using l by simp
  then have "dropWhile is_space (rev s) = rev s" unfolding r .
  ultimately show ?thesis by (simp add: trim_def)
qed

lemma cleaned_short: "cleaned readme_short = ''see docs''"
  by code_simp

lemma cleaned_long: "cleaned readme_long = replicate 1500 CHR ''a''"
  by (simp add: readme_long_def cleaned_def strip_images_def strip_fences_def strip_headings_def collapse_links_def
      normalize_newlines_def image_re_def fence_re_def heading_re_def
      link_re_def crlf_re_def replace_all_absent trim_id is_space_def)


text \<open>
  C7. With the maximum length 1400 of the generator, the excerpt is never longer than 1400
  characters, the ellipsis marker included; it is the cleaned text itself when that has at
  most 1400 characters, and otherwise the first 1397 characters of the cleaned text
  followed by the three-character ellipsis marker.
\<close>

theorem excerpt_offline_bounded:
  "length (excerptMarkdown md 1400) \<le> 1400 \<and>
   excerptMarkdown md 1400 =
     (if length (cleaned md) \<le> 1400 then cleaned md else take 1397 (cleaned md) @ ''...'')"
  by (auto simp: excerptMarkdown_def Let_def slice0_def cleaned_Nil)


theorem excerpt_offline_bounded_witness:
  "excerptMarkdown readme_short 1400 = ''see docs'' \<and>
   excerptMarkdown readme_long 1400 = replicate 1397 CHR ''a'' @ ''...'' \<and>
   length (excerptMarkdown readme_long 1400) = 1400"
  using excerpt_offline_bounded [of readme_short] excerpt_offline_bounded [of readme_long]
  by (simp add: cleaned_short cleaned_long)

lemma matches_heading:
  "matches heading_re (c # xs) =
     (if c = CHR ''#'' then map (\<lambda>k. [[CHR ''#''], take k xs]) (rev [1 ..< Suc (length (takeWhile dot xs))]) else [])"
  by (simp add: heading_re_def concat_map_singleton comp_def del: upt_Suc)

lemma exec_heading:
  "exec heading_re (c # xs) =
     (if c = CHR ''#'' \<and> takeWhile dot xs \<noteq> [] then Some [[CHR ''#''], takeWhile dot xs] else None)"
proof (cases "takeWhile dot xs = []")
  case True
  then show ?thesis by (simp add: exec_def matches_heading)
next
  case False
  define n where "n = length (takeWhile dot xs)"
  have n: "0 < n" using False by (simp add: n_def)
  then have "rev [1 ..< Suc n] = n # rev [1 ..< n]" by simp
  moreover have "take n xs = takeWhile dot xs"
    unfolding n_def by (rule takeWhile_eq_take [symmetric])
  ultimately show ?thesis
    using False by (simp add: exec_def matches_heading n_def [symmetric] del: upt_Suc)
qed

lemma exec_heading_Nil: "exec heading_re [] = None"
  by (simp add: exec_def heading_re_def)

lemma strip_headings_Nil: "strip_headings [] = []"
  by (simp add: strip_headings_def replace_all_Nil exec_heading_Nil)

lemma strip_headings_Cons:
  "strip_headings (c # xs) =
     (if c = CHR ''#'' \<and> takeWhile dot xs \<noteq> [] then strip_headings (dropWhile dot xs)
      else c # strip_headings xs)"
proof (cases "c = CHR ''#'' \<and> takeWhile dot xs \<noteq> []")
  case True
  then have e: "exec heading_re (c # xs) = Some [[CHR ''#''], takeWhile dot xs]"
    by (simp add: exec_heading)
  have "drop (length (concat [[CHR ''#''], takeWhile dot xs])) (c # xs) = dropWhile dot xs"
    by (simp add: dropWhile_eq_drop)
  then show ?thesis
    using True replace_all_Some [OF e, of "\<lambda>m. []"] by (simp add: strip_headings_def)
next
  case False
  then have "exec heading_re (c # xs) = None" by (simp add: exec_heading)
  then show ?thesis using False by (auto simp: strip_headings_def replace_all_None)
qed

lemma strip_headings_no_marker:
  "CHR ''#'' \<notin> set pre \<Longrightarrow> strip_headings (pre @ s) = pre @ strip_headings s"
  by (induction pre) (auto simp: strip_headings_Cons)

lemma takeWhile_before_terminator:
  "is_line_terminator t \<Longrightarrow> takeWhile dot (a @ t # b) = takeWhile dot a"
  by (induction a) (simp_all add: dot_def)

lemma dropWhile_before_terminator:
  "is_line_terminator t \<Longrightarrow> dropWhile dot (a @ t # b) = dropWhile dot a @ t # b"
  by (induction a) (simp_all add: dot_def)

lemma strip_headings_terminator:
  "is_line_terminator t \<Longrightarrow> strip_headings (t # rest) = t # strip_headings rest"
  by (auto simp: strip_headings_Cons is_line_terminator_def)

lemma strip_headings_lines:
  assumes t: "is_line_terminator t"
  shows "strip_headings (a @ t # b) = strip_headings a @ t # strip_headings b"
proof (induction a rule: length_induct)
  case (1 a)
  show ?case
  proof (cases a)
    case Nil
    then show ?thesis using t by (simp add: strip_headings_terminator strip_headings_Nil)
  next
    case (Cons c a')
    have tw: "takeWhile dot (a' @ t # b) = takeWhile dot a'"
      using t by (rule takeWhile_before_terminator)
    have dw: "dropWhile dot (a' @ t # b) = dropWhile dot a' @ t # b"
      using t by (rule dropWhile_before_terminator)
    show ?thesis
    proof (cases "c = CHR ''#'' \<and> takeWhile dot a' \<noteq> []")
      case True
      have "length (dropWhile dot a') < length a"
        using Cons length_dropWhile_le [of dot a'] by simp
      then have IH: "strip_headings (dropWhile dot a' @ t # b)
          = strip_headings (dropWhile dot a') @ t # strip_headings b"
        using 1 by blast
      have "strip_headings (c # (a' @ t # b)) = strip_headings (dropWhile dot a' @ t # b)"
        unfolding strip_headings_Cons [of c "a' @ t # b"] tw dw using True by simp
      moreover have "strip_headings (c # a') = strip_headings (dropWhile dot a')"
        unfolding strip_headings_Cons [of c a'] using True by simp
      ultimately show ?thesis using Cons IH by simp
    next
      case False
      have "length a' < length a" using Cons by simp
      then have IH: "strip_headings (a' @ t # b) = strip_headings a' @ t # strip_headings b"
        using 1 by blast
      have "strip_headings (c # (a' @ t # b)) = c # strip_headings (a' @ t # b)"
        unfolding strip_headings_Cons [of c "a' @ t # b"] tw using False by auto
      moreover have "strip_headings (c # a') = c # strip_headings a'"
        unfolding strip_headings_Cons [of c a'] using False by auto
      ultimately show ?thesis using Cons IH by simp
    qed
  qed
qed

lemma strip_headings_marker_text:
  assumes "\<forall>c\<in>set body. dot c" "body \<noteq> []"
  shows "strip_headings (CHR ''#'' # body) = []"
proof -
  have tw: "takeWhile dot body = body" using assms(1) by simp
  have dw: "dropWhile dot body = []" using assms(1) by simp
  show ?thesis
    unfolding strip_headings_Cons [of "CHR ''#''" body] tw dw
    using assms(2) by (simp add: strip_headings_Nil)
qed

lemma strip_headings_marker_last: "strip_headings [CHR ''#''] = [CHR ''#'']"
  by (simp add: strip_headings_Cons strip_headings_Nil)

text \<open>
  C9 (as amended). The heading step works line by line and keeps every line break: the
  result for a text with a line terminator \<open>t\<close> in it is the result for the part before
  \<open>t\<close>, then \<open>t\<close>, then the result for the part after \<open>t\<close>. Within a line, terminated or
  last: a text without \<open>#\<close> is unchanged; when the first \<open>#\<close> is followed by at least one
  more character of the line, the text from that first \<open>#\<close> to the end of the line is
  removed; when the first \<open>#\<close> is the last character of the line, nothing is removed, since
  \<open>/#.+/\<close> needs one character after the marker. Here \<open>pre\<close> is the text before the first
  \<open>#\<close> and \<open>body\<close> the rest of the line.
\<close>

theorem heading_step_line:
  "(is_line_terminator t \<longrightarrow>
      strip_headings (a @ t # b) = strip_headings a @ t # strip_headings b)
   \<and> (CHR ''#'' \<notin> set l \<longrightarrow> strip_headings l = l)
   \<and> (CHR ''#'' \<notin> set pre \<and> (\<forall>c\<in>set body. dot c) \<and> body \<noteq> [] \<longrightarrow>
        strip_headings (pre @ CHR ''#'' # body) = pre)
   \<and> (CHR ''#'' \<notin> set pre \<longrightarrow> strip_headings (pre @ [CHR ''#'']) = pre @ [CHR ''#''])"
proof (intro conjI impI)
  show "strip_headings (a @ t # b) = strip_headings a @ t # strip_headings b"
    if "is_line_terminator t"
    using that by (rule strip_headings_lines)
  show "strip_headings l = l" if "CHR ''#'' \<notin> set l"
    using strip_headings_no_marker [OF that, of "[]"] by (simp add: strip_headings_Nil)
  show "strip_headings (pre @ CHR ''#'' # body) = pre"
    if "CHR ''#'' \<notin> set pre \<and> (\<forall>c\<in>set body. dot c) \<and> body \<noteq> []"
    using that by (simp add: strip_headings_no_marker strip_headings_marker_text)
  show "strip_headings (pre @ [CHR ''#'']) = pre @ [CHR ''#'']" if "CHR ''#'' \<notin> set pre"
    using that by (simp add: strip_headings_no_marker strip_headings_marker_last)
qed

theorem heading_step_line_witness:
  "strip_headings (''ab # Title'' @ CHR 0x0A # ''cd'') = ''ab '' @ CHR 0x0A # ''cd'' \<and>
   strip_headings ''ab # Title'' = ''ab '' \<and>
   strip_headings (''a#b#'' @ CHR 0x0A # ''c'') = ''a'' @ CHR 0x0A # ''c'' \<and>
   strip_headings ''ab #'' = ''ab #''"
proof -
  have nl: "is_line_terminator (CHR 0x0A)" by (simp add: is_line_terminator_def)
  have l1: "strip_headings (''ab # Title'' @ CHR 0x0A # ''cd'')
      = strip_headings ''ab # Title'' @ CHR 0x0A # strip_headings ''cd''"
    using heading_step_line [of "CHR 0x0A" "''ab # Title''" "''cd''"] nl by blast
  have l2: "strip_headings ''cd'' = ''cd''"
    using heading_step_line [of _ _ _ "''cd''"] by simp
  have l3: "strip_headings (''ab '' @ CHR ''#'' # '' Title'') = ''ab ''"
    using heading_step_line [of _ _ _ _ "''ab ''" "'' Title''"] by (simp add: dot_def is_line_terminator_def)
  have l4: "strip_headings (''a#b#'' @ CHR 0x0A # ''c'')
      = strip_headings ''a#b#'' @ CHR 0x0A # strip_headings ''c''"
    using heading_step_line [of "CHR 0x0A" "''a#b#''" "''c''"] nl by blast
  have l5: "strip_headings ''c'' = ''c''"
    using heading_step_line [of _ _ _ "''c''"] by simp
  have l6: "strip_headings (''a'' @ CHR ''#'' # ''b#'') = ''a''"
    using heading_step_line [of _ _ _ _ "''a''" "''b#''"] by (simp add: dot_def is_line_terminator_def)
  have l7: "strip_headings (''ab '' @ [CHR ''#'']) = ''ab '' @ [CHR ''#'']"
    using heading_step_line [of _ _ _ _ "''ab ''"] by simp
  show ?thesis using l1 l2 l3 l4 l5 l6 l7 by simp
qed

text \<open>
  The claim as stated fails on a line whose only \<open>#\<close> is its last character: the marker
  is still in the output.
\<close>

theorem heading_step_counterexample:
  "strip_headings [CHR ''x'', CHR ''#'', CHR 0x0A, CHR ''y''] = [CHR ''x'', CHR ''#'', CHR 0x0A, CHR ''y'']"
  by (simp add: strip_headings_Cons strip_headings_Nil dot_def is_line_terminator_def)

lemma replace_all_nowhere: "matches_nowhere re s \<Longrightarrow> replace_all re f s = s"
  by (induction s) (simp_all add: replace_all_Nil replace_all_None)

lemma matches_nowhere_exec: "matches_nowhere re s \<Longrightarrow> exec re s = None"
  by (cases s) simp_all

lemma exec_crlf:
  "exec crlf_re s = (case s of c # d # r \<Rightarrow> if c = CHR 0x0D \<and> d = CHR 0x0A then Some [[c], [d]] else None | _ \<Rightarrow> None)"
  by (auto simp: exec_def crlf_re_def split: list.splits)

lemma normalize_newlines_Nil: "normalize_newlines [] = []"
  by (simp add: normalize_newlines_def replace_all_Nil exec_crlf)

lemma normalize_newlines_crlf:
  "normalize_newlines (CHR 0x0D # CHR 0x0A # s) = CHR 0x0A # normalize_newlines s"
proof -
  have "exec crlf_re (CHR 0x0D # CHR 0x0A # s) = Some [[CHR 0x0D], [CHR 0x0A]]"
    by (simp add: exec_crlf)
  from replace_all_Some [OF this, of "\<lambda>m. [CHR 0x0A]"] show ?thesis
    by (simp add: normalize_newlines_def)
qed

lemma normalize_newlines_other:
  "\<not> (c = CHR 0x0D \<and> s \<noteq> [] \<and> hd s = CHR 0x0A) \<Longrightarrow> normalize_newlines (c # s) = c # normalize_newlines s"
proof -
  assume "\<not> (c = CHR 0x0D \<and> s \<noteq> [] \<and> hd s = CHR 0x0A)"
  then have "exec crlf_re (c # s) = None"
    by (cases s) (auto simp: exec_crlf)
  then show ?thesis by (simp add: normalize_newlines_def replace_all_None)
qed

lemma normalize_newlines_cases:
  obtains (nil) "s = []"
  | (crlf) r where "s = CHR 0x0D # CHR 0x0A # r" "normalize_newlines s = CHR 0x0A # normalize_newlines r"
  | (other) c r where "s = c # r" "normalize_newlines s = c # normalize_newlines r"
      "\<not> (c = CHR 0x0D \<and> r \<noteq> [] \<and> hd r = CHR 0x0A)"
proof (cases s)
  case Nil
  then show ?thesis by (rule nil)
next
  case (Cons c r)
  show ?thesis
  proof (cases "c = CHR 0x0D \<and> r \<noteq> [] \<and> hd r = CHR 0x0A")
    case True
    then obtain r' where "r = CHR 0x0A # r'" by (cases r) auto
    with True Cons show ?thesis using crlf [of r'] by (simp add: normalize_newlines_crlf)
  next
    case False
    then show ?thesis using Cons other [of c r] by (simp add: normalize_newlines_other)
  qed
qed

lemma length_normalize_newlines: "length (normalize_newlines s) \<le> length s"
proof (induction s rule: length_induct)
  case (1 s)
  show ?case
  proof (cases s rule: normalize_newlines_cases)
    case nil
    then show ?thesis by (simp add: normalize_newlines_Nil)
  next
    case (crlf r)
    then show ?thesis using 1 [rule_format, of r] by simp
  next
    case (other c r)
    then show ?thesis using 1 [rule_format, of r] by simp
  qed
qed


lemma normalize_newlines_eq_Nil: "normalize_newlines s = [] \<longleftrightarrow> s = []"
  by (cases s rule: normalize_newlines_cases) (simp_all add: normalize_newlines_Nil)

lemma last_normalize_newlines: "s \<noteq> [] \<Longrightarrow> last (normalize_newlines s) = last s"
proof (induction s rule: length_induct)
  case (1 s)
  show ?case
  proof (cases s rule: normalize_newlines_cases)
    case nil
    with 1 show ?thesis by simp
  next
    case (crlf r)
    then show ?thesis
      using 1(1) [rule_format, of r] by (cases "r = []") (simp_all add: normalize_newlines_eq_Nil normalize_newlines_Nil)
  next
    case (other c r)
    then show ?thesis
      using 1(1) [rule_format, of r] by (cases "r = []") (simp_all add: normalize_newlines_eq_Nil normalize_newlines_Nil)
  qed
qed

lemma hd_normalize_newlines: "s \<noteq> [] \<Longrightarrow> hd s \<noteq> CHR 0x0D \<Longrightarrow> hd (normalize_newlines s) = hd s"
  by (cases s rule: normalize_newlines_cases) simp_all

lemma trim_fixed:
  assumes "trim s = s"
  shows "s = [] \<or> (\<not> is_space (hd s) \<and> \<not> is_space (last s))"
proof (cases s)
  case Nil
  then show ?thesis by simp
next
  case (Cons a t)
  have len: "length (trim s) = length (dropWhile is_space (rev (dropWhile is_space s)))"
    by (simp add: trim_def)
  have le1: "length (dropWhile is_space (rev (dropWhile is_space s))) \<le> length (dropWhile is_space s)"
    using length_dropWhile_le [of is_space "rev (dropWhile is_space s)"] by simp
  have a: "\<not> is_space a"
  proof
    assume "is_space a"
    then have "length (dropWhile is_space s) \<le> length t"
      using Cons length_dropWhile_le [of is_space t] by simp
    then have "length (trim s) < length s" using len le1 Cons by simp
    then show False using assms by simp
  qed
  then have d: "dropWhile is_space s = s" using Cons by simp
  have "\<not> is_space (last s)"
  proof
    assume l: "is_space (last s)"
    obtain x xs where r: "rev s = x # xs" using Cons by (cases "rev s") auto
    have "hd (rev s) = x" using r by simp
    then have "x = last s" by (simp add: hd_rev)
    then have "dropWhile is_space (x # xs) = dropWhile is_space xs" using l by simp
    then have "length (dropWhile is_space (rev s)) \<le> length xs"
      unfolding r using length_dropWhile_le [of is_space xs] by simp
    moreover have "length s = Suc (length xs)"
      using r by (metis length_Cons length_rev)
    ultimately have "length (trim s) < length s" using len d by simp
    then show False using assms by simp
  qed
  then show ?thesis using a Cons by simp
qed

lemma trim_normalize_newlines:
  assumes "trim s = s"
  shows "trim (normalize_newlines s) = normalize_newlines s"
proof (cases "s = []")
  case True
  then show ?thesis by (simp add: normalize_newlines_Nil trim_def)
next
  case False
  with trim_fixed [OF assms] have h: "\<not> is_space (hd s)" and l: "\<not> is_space (last s)" by auto
  have "hd s \<noteq> CHR 0x0D" using h by (auto simp: is_space_def)
  then have "hd (normalize_newlines s) = hd s" using False by (simp add: hd_normalize_newlines)
  moreover have "last (normalize_newlines s) = last s" using False by (rule last_normalize_newlines)
  ultimately show ?thesis using h l by (intro trim_id) simp
qed

lemma normalize_newlines_dot_prefix:
  "\<forall>c\<in>set a. dot c \<Longrightarrow> normalize_newlines (a @ b) = a @ normalize_newlines b"
proof (induction a)
  case Nil
  then show ?case by simp
next
  case (Cons c a)
  then have "c \<noteq> CHR 0x0D" by (auto simp: dot_def is_line_terminator_def)
  then have "normalize_newlines (c # (a @ b)) = c # normalize_newlines (a @ b)"
    by (simp add: normalize_newlines_other)
  then show ?case using Cons by simp
qed

lemma takeWhile_dot_normalize_newlines_start:
  "b = [] \<or> \<not> dot (hd b) \<Longrightarrow> takeWhile dot (normalize_newlines b) = []"
  by (cases b rule: normalize_newlines_cases)
     (auto simp: normalize_newlines_Nil dot_def is_line_terminator_def)

lemma takeWhile_dot_normalize_newlines:
  "takeWhile dot (normalize_newlines t) = takeWhile dot t"
proof -
  define a where "a = takeWhile dot t"
  define b where "b = dropWhile dot t"
  have t: "t = a @ b" by (simp add: a_def b_def)
  have a: "\<forall>c\<in>set a. dot c" by (auto simp: a_def dest: set_takeWhileD)
  have b: "b = [] \<or> \<not> dot (hd b)" unfolding b_def by (metis hd_dropWhile)
  have "takeWhile dot (a @ normalize_newlines b) = a @ takeWhile dot (normalize_newlines b)"
    using a by (simp add: takeWhile_append2)
  moreover have "takeWhile dot (a @ b) = a @ takeWhile dot b"
    using a by (simp add: takeWhile_append2)
  moreover have "takeWhile dot b = []" using b by (cases b) auto
  moreover have "takeWhile dot (normalize_newlines b) = []"
    using b by (rule takeWhile_dot_normalize_newlines_start)
  moreover have "normalize_newlines (a @ b) = a @ normalize_newlines b"
    using a by (rule normalize_newlines_dot_prefix)
  ultimately show ?thesis unfolding t by simp
qed

lemma drop_normalize_newlines_dot:
  assumes "k \<le> length (takeWhile dot t)"
  shows "drop k (normalize_newlines t) = normalize_newlines (drop k t)"
proof -
  have "take k t = take k (takeWhile dot t)"
    using assms by (metis takeWhile_dropWhile_id take_append diff_is_0_eq take_0 append_Nil2)
  then have "set (take k t) \<subseteq> set (takeWhile dot t)" by (simp add: set_take_subset)
  then have d: "\<forall>c\<in>set (take k t). dot c" by (auto dest: set_takeWhileD)
  have "k \<le> length t" using assms length_takeWhile_le [of dot t] by simp
  then have l: "length (take k t) = k" by simp
  have "normalize_newlines (take k t @ drop k t) = take k t @ normalize_newlines (drop k t)"
    using d by (rule normalize_newlines_dot_prefix)
  then have "drop k (normalize_newlines t) = drop k (take k t @ normalize_newlines (drop k t))" by simp
  also have "\<dots> = normalize_newlines (drop k t)" using l by simp
  finally show ?thesis .
qed

lemma drop_normalize_newlines_suffix:
  "\<exists>j\<le>length t. drop k (normalize_newlines t) = normalize_newlines (drop j t)"
proof (induction k arbitrary: t)
  case 0
  show ?case by (rule exI [of _ 0]) simp
next
  case (Suc k)
  show ?case
  proof (cases t rule: normalize_newlines_cases)
    case nil
    then show ?thesis by (simp add: normalize_newlines_Nil)
  next
    case (crlf r)
    from Suc [of r] obtain j where "j \<le> length r" "drop k (normalize_newlines r) = normalize_newlines (drop j r)"
      by blast
    then show ?thesis using crlf by (intro exI [of _ "Suc (Suc j)"]) simp
  next
    case (other c r)
    from Suc [of r] obtain j where "j \<le> length r" "drop k (normalize_newlines r) = normalize_newlines (drop j r)"
      by blast
    then show ?thesis using other by (intro exI [of _ "Suc j"]) simp
  qed
qed


lemma matches_Chr_nonempty:
  "matches (Chr c # r) s \<noteq> [] \<longleftrightarrow> (\<exists>u. s = c # u \<and> matches r u \<noteq> [])"
  by (cases s) auto

lemma matches_LazyStar_nonempty:
  "matches (LazyStar P # r) s \<noteq> [] \<longleftrightarrow> (\<exists>k\<le>length (takeWhile P s). matches r (drop k s) \<noteq> [])"
  by (auto simp: less_Suc_eq_le simp del: upt_Suc)

lemma matches_GreedyPlus_nonempty:
  "matches (GreedyPlus P # r) s \<noteq> [] \<longleftrightarrow>
     (\<exists>k. 1 \<le> k \<and> k \<le> length (takeWhile P s) \<and> matches r (drop k s) \<noteq> [])"
  by (auto simp: less_Suc_eq_le simp del: upt_Suc)

lemma matches_normalize_newlines:
  assumes "\<forall>i\<in>set re. (\<exists>c. i = Chr c \<and> dot c) \<or> i = LazyStar dot \<or> i = GreedyPlus dot \<or> i = LazyStar any_char"
    and "matches re (normalize_newlines t) \<noteq> []"
  shows "matches re t \<noteq> []"
  using assms
proof (induction re arbitrary: t)
  case Nil
  then show ?case by simp
next
  case (Cons i r)
  have tame: "\<forall>i\<in>set r. (\<exists>c. i = Chr c \<and> dot c) \<or> i = LazyStar dot \<or> i = GreedyPlus dot \<or> i = LazyStar any_char"
    using Cons.prems(1) by simp
  from Cons.prems(1) consider (chr) c where "i = Chr c" "dot c" | (lazy) "i = LazyStar dot"
    | (greedy) "i = GreedyPlus dot" | (anyc) "i = LazyStar any_char"
    by auto
  then show ?case
  proof cases
    case (chr c)
    have "matches (Chr c # r) (normalize_newlines t) \<noteq> []"
      using Cons.prems(2) unfolding chr(1) .
    then obtain u where u: "normalize_newlines t = c # u" "matches r u \<noteq> []"
      unfolding matches_Chr_nonempty by blast
    have c: "c \<noteq> CHR 0x0A" using chr(2) by (auto simp: dot_def is_line_terminator_def)
    show ?thesis
    proof (cases t rule: normalize_newlines_cases)
      case nil
      with u show ?thesis by (simp add: normalize_newlines_Nil)
    next
      case (crlf r')
      with u c show ?thesis by simp
    next
      case (other c' r')
      with u have "c' = c" "matches r (normalize_newlines r') \<noteq> []" by auto
      then have "matches r r' \<noteq> []" using Cons.IH [OF tame] by blast
      then have "matches (Chr c # r) (c # r') \<noteq> []" unfolding matches_Chr_nonempty by blast
      then show ?thesis using other \<open>c' = c\<close> chr(1) by simp
    qed
  next
    case lazy
    have "matches (LazyStar dot # r) (normalize_newlines t) \<noteq> []"
      using Cons.prems(2) unfolding lazy .
    then obtain k where k: "k \<le> length (takeWhile dot (normalize_newlines t))"
      "matches r (drop k (normalize_newlines t)) \<noteq> []"
      unfolding matches_LazyStar_nonempty by blast
    then have k': "k \<le> length (takeWhile dot t)" by (simp add: takeWhile_dot_normalize_newlines)
    then have "matches r (normalize_newlines (drop k t)) \<noteq> []"
      using k(2) by (simp add: drop_normalize_newlines_dot)
    then have "matches r (drop k t) \<noteq> []" using Cons.IH [OF tame] by blast
    then have "matches (LazyStar dot # r) t \<noteq> []"
      unfolding matches_LazyStar_nonempty using k' by blast
    then show ?thesis unfolding lazy .
  next
    case greedy
    have "matches (GreedyPlus dot # r) (normalize_newlines t) \<noteq> []"
      using Cons.prems(2) unfolding greedy .
    then obtain k where k: "1 \<le> k" "k \<le> length (takeWhile dot (normalize_newlines t))"
      "matches r (drop k (normalize_newlines t)) \<noteq> []"
      unfolding matches_GreedyPlus_nonempty by blast
    then have k': "k \<le> length (takeWhile dot t)" by (simp add: takeWhile_dot_normalize_newlines)
    then have "matches r (normalize_newlines (drop k t)) \<noteq> []"
      using k(3) by (simp add: drop_normalize_newlines_dot)
    then have "matches r (drop k t) \<noteq> []" using Cons.IH [OF tame] by blast
    then have "matches (GreedyPlus dot # r) t \<noteq> []"
      unfolding matches_GreedyPlus_nonempty using k' k(1) by blast
    then show ?thesis unfolding greedy .
  next
    case anyc
    have "matches (LazyStar any_char # r) (normalize_newlines t) \<noteq> []"
      using Cons.prems(2) unfolding anyc .
    then obtain k where k: "matches r (drop k (normalize_newlines t)) \<noteq> []"
      unfolding matches_LazyStar_nonempty by blast
    obtain j where j: "j \<le> length t" "drop k (normalize_newlines t) = normalize_newlines (drop j t)"
      using drop_normalize_newlines_suffix [of t k] by blast
    then have "matches r (normalize_newlines (drop j t)) \<noteq> []" using k by simp
    then have "matches r (drop j t) \<noteq> []" using Cons.IH [OF tame] by blast
    moreover have tw: "takeWhile any_char t = t" by (simp add: any_char_def)
    have "j \<le> length (takeWhile any_char t)" unfolding tw using j(1) .
    ultimately have "matches (LazyStar any_char # r) t \<noteq> []"
      unfolding matches_LazyStar_nonempty by blast
    then show ?thesis unfolding anyc .
  qed
qed

lemma exec_None_iff: "exec re s = None \<longleftrightarrow> matches re s = []"
  by (simp add: exec_def split: list.splits)

lemma matches_nowhere_normalize_newlines:
  assumes tame: "\<forall>i\<in>set re. (\<exists>c. i = Chr c \<and> dot c) \<or> i = LazyStar dot \<or> i = GreedyPlus dot \<or> i = LazyStar any_char"
    and "matches_nowhere re s"
  shows "matches_nowhere re (normalize_newlines s)"
  using assms(2)
proof (induction s rule: length_induct)
  case (1 s)
  have here: "exec re (normalize_newlines s) = None"
    using matches_nowhere_exec [OF "1.prems"] matches_normalize_newlines [OF tame, of s]
    by (auto simp: exec_None_iff)
  show ?case
  proof (cases s rule: normalize_newlines_cases)
    case nil
    then show ?thesis using here by (simp add: normalize_newlines_Nil)
  next
    case (crlf r)
    then have "matches_nowhere re r" using "1.prems" by simp
    then have "matches_nowhere re (normalize_newlines r)" using 1(1) crlf by simp
    then show ?thesis using here crlf by simp
  next
    case (other c r)
    then have "matches_nowhere re r" using "1.prems" by simp
    then have "matches_nowhere re (normalize_newlines r)" using 1(1) other by simp
    then show ?thesis using here other by simp
  qed
qed

lemma exec_crcrlf:
  "exec crcrlf_re s = None \<longleftrightarrow> \<not> (\<exists>r. s = CHR 0x0D # CHR 0x0D # CHR 0x0A # r)"
  by (auto simp: exec_def crcrlf_re_def split: list.splits)

lemma exec_crlf_None:
  "exec crlf_re s = None \<longleftrightarrow> \<not> (\<exists>r. s = CHR 0x0D # CHR 0x0A # r)"
  by (auto simp: exec_crlf split: list.splits)

lemma normalize_newlines_fixed:
  assumes "matches_nowhere crcrlf_re s"
  shows "matches_nowhere crlf_re (normalize_newlines s)"
  using assms
proof (induction s rule: length_induct)
  case (1 s)
  show ?case
  proof (cases s rule: normalize_newlines_cases)
    case nil
    then show ?thesis by (simp add: normalize_newlines_Nil exec_crlf)
  next
    case (crlf r)
    then have "matches_nowhere crcrlf_re r" using "1.prems" by simp
    then have "matches_nowhere crlf_re (normalize_newlines r)" using 1(1) crlf by simp
    then show ?thesis using crlf by (simp add: exec_crlf_None)
  next
    case (other c r)
    then have r: "matches_nowhere crcrlf_re r" using "1.prems" by simp
    then have IH: "matches_nowhere crlf_re (normalize_newlines r)" using 1(1) other by simp
    have s: "exec crcrlf_re (c # r) = None" using "1.prems" other by simp
    have "exec crlf_re (c # normalize_newlines r) = None"
    proof (rule ccontr)
      assume "exec crlf_re (c # normalize_newlines r) \<noteq> None"
      then obtain u where u: "c = CHR 0x0D" "normalize_newlines r = CHR 0x0A # u"
        by (auto simp: exec_crlf_None)
      show False
      proof (cases r rule: normalize_newlines_cases)
        case nil
        with u show ?thesis by (simp add: normalize_newlines_Nil)
      next
        case (crlf r')
        with s u show ?thesis by (simp add: exec_crcrlf)
      next
        case (other c' r')
        with u have "c' = CHR 0x0A" by simp
        with other(1) u(1) \<open>\<not> (c = CHR 0x0D \<and> r \<noteq> [] \<and> hd r = CHR 0x0A)\<close> show ?thesis by simp
      qed
    qed
    then show ?thesis using IH other by simp
  qed
qed

lemma tame_image: "\<forall>i\<in>set image_re. (\<exists>c. i = Chr c \<and> dot c) \<or> i = LazyStar dot \<or> i = GreedyPlus dot \<or> i = LazyStar any_char"
  by (simp add: image_re_def dot_def is_line_terminator_def)

lemma tame_fence: "\<forall>i\<in>set fence_re. (\<exists>c. i = Chr c \<and> dot c) \<or> i = LazyStar dot \<or> i = GreedyPlus dot \<or> i = LazyStar any_char"
  by (simp add: fence_re_def dot_def is_line_terminator_def)

lemma tame_heading: "\<forall>i\<in>set heading_re. (\<exists>c. i = Chr c \<and> dot c) \<or> i = LazyStar dot \<or> i = GreedyPlus dot \<or> i = LazyStar any_char"
  by (simp add: heading_re_def dot_def is_line_terminator_def)

lemma tame_link: "\<forall>i\<in>set link_re. (\<exists>c. i = Chr c \<and> dot c) \<or> i = LazyStar dot \<or> i = GreedyPlus dot \<or> i = LazyStar any_char"
  by (simp add: link_re_def dot_def is_line_terminator_def)

lemma excerpt_of_clean:
  assumes "matches_nowhere image_re s" "matches_nowhere fence_re s" "matches_nowhere heading_re s"
    "matches_nowhere link_re s" "trim s = s" "int (length s) \<le> maxLen"
  shows "excerptMarkdown s maxLen = normalize_newlines s"
proof -
  have "cleaned s = normalize_newlines s"
    using assms
    by (simp add: cleaned_def strip_images_def strip_fences_def strip_headings_def collapse_links_def
        replace_all_nowhere trim_normalize_newlines)
  moreover have "int (length (normalize_newlines s)) \<le> maxLen"
    using length_normalize_newlines [of s] assms(6) by simp
  ultimately show ?thesis
    by (simp add: excerptMarkdown_def normalize_newlines_Nil)
qed

text \<open>
  C8 (as amended). On a text in which none of the four markup expressions matches anywhere
  (no image embed, no fenced code block, no heading marker followed by text, no link
  construct), which is already trimmed, within the length limit, and has no carriage
  return in front of a CR LF pair, applying the derivation twice gives the same result as
  applying it once.
\<close>

theorem excerpt_idempotent_on_clean:
  assumes "matches_nowhere image_re s" "matches_nowhere fence_re s" "matches_nowhere heading_re s"
    "matches_nowhere link_re s" "trim s = s" "int (length s) \<le> maxLen"
    "matches_nowhere crcrlf_re s"
  shows "excerptMarkdown (excerptMarkdown s maxLen) maxLen = excerptMarkdown s maxLen"
proof -
  let ?n = "normalize_newlines s"
  have e: "excerptMarkdown s maxLen = ?n" using assms(1-6) by (rule excerpt_of_clean)
  have "excerptMarkdown ?n maxLen = normalize_newlines ?n"
  proof (rule excerpt_of_clean)
    show "matches_nowhere image_re ?n" using tame_image assms(1) by (rule matches_nowhere_normalize_newlines)
    show "matches_nowhere fence_re ?n" using tame_fence assms(2) by (rule matches_nowhere_normalize_newlines)
    show "matches_nowhere heading_re ?n" using tame_heading assms(3) by (rule matches_nowhere_normalize_newlines)
    show "matches_nowhere link_re ?n" using tame_link assms(4) by (rule matches_nowhere_normalize_newlines)
    show "trim ?n = ?n" using assms(5) by (rule trim_normalize_newlines)
    show "int (length ?n) \<le> maxLen" using length_normalize_newlines [of s] assms(6) by simp
  qed
  moreover have "normalize_newlines ?n = ?n"
    using normalize_newlines_fixed [OF assms(7)] by (simp add: normalize_newlines_def replace_all_nowhere)
  ultimately show ?thesis using e by simp
qed


theorem excerpt_idempotent_on_clean_witness:
  "matches_nowhere image_re text_crlf \<and> matches_nowhere fence_re text_crlf \<and>
   matches_nowhere heading_re text_crlf \<and> matches_nowhere link_re text_crlf \<and>
   trim text_crlf = text_crlf \<and> int (length text_crlf) \<le> 1400 \<and>
   matches_nowhere crcrlf_re text_crlf \<and>
   excerptMarkdown (excerptMarkdown text_crlf 1400) 1400 = excerptMarkdown text_crlf 1400"
proof -
  have h1: "matches_nowhere image_re text_crlf" by code_simp
  have h2: "matches_nowhere fence_re text_crlf" by code_simp
  have h3: "matches_nowhere heading_re text_crlf" by code_simp
  have h4: "matches_nowhere link_re text_crlf" by code_simp
  have h5: "trim text_crlf = text_crlf" by code_simp
  have h6: "int (length text_crlf) \<le> 1400" by (simp add: text_crlf_def)
  have h7: "matches_nowhere crcrlf_re text_crlf" by code_simp
  show ?thesis
    using excerpt_idempotent_on_clean [OF h1 h2 h3 h4 h5 h6 h7] h1 h2 h3 h4 h5 h6 h7 by simp
qed

text \<open>
  Without the last condition the claim fails: the text \<open>a CR CR LF b\<close> has no markup, is
  trimmed and short, yet one application leaves \<open>a CR LF b\<close> and a second one \<open>a LF b\<close>.
\<close>

theorem excerpt_idempotent_counterexample:
  "matches_nowhere image_re text_crcrlf \<and> matches_nowhere fence_re text_crcrlf \<and>
   matches_nowhere heading_re text_crcrlf \<and> matches_nowhere link_re text_crcrlf \<and>
   trim text_crcrlf = text_crcrlf \<and> int (length text_crcrlf) \<le> 1400 \<and>
   excerptMarkdown text_crcrlf 1400 = [CHR ''a'', CHR 0x0D, CHR 0x0A, CHR ''b''] \<and>
   excerptMarkdown (excerptMarkdown text_crcrlf 1400) 1400 = [CHR ''a'', CHR 0x0A, CHR ''b''] \<and>
   excerptMarkdown (excerptMarkdown text_crcrlf 1400) 1400 \<noteq> excerptMarkdown text_crcrlf 1400"
  by code_simp

section \<open>Properties of the Collector\<close>

lemma short_page_JArr: "short_page (JArr items) \<longleftrightarrow> length items < 100"
  by (simp add: short_page_def perPage_def)

lemma listRepos_from_full:
  assumes "fetchJson net (repos_url user p) = Inr (JArr items)" "100 \<le> length items"
  shows "listRepos_from net user p all log =
         listRepos_from net user (p + 1) (all @ items) (log @ [repos_url user p])"
  using assms by (subst listRepos_from.simps) (simp add: short_page_JArr)

lemma listRepos_from_short:
  assumes "fetchJson net (repos_url user p) = Inr (JArr items)" "length items < 100"
  shows "listRepos_from net user p all log = Some (Inr (all @ items), log @ [repos_url user p])"
  using assms by (subst listRepos_from.simps) (simp add: short_page_JArr)

lemma listRepos_from_error:
  assumes "fetchJson net (repos_url user p) = Inl e"
  shows "listRepos_from net user p all log = Some (Inl e, log @ [repos_url user p])"
  using assms by (subst listRepos_from.simps) simp

lemma listRepos_from_run:
  assumes "\<forall>i<k. fetchJson net (repos_url user (p + i)) = Inr (JArr (pages (p + i))) \<and> 100 \<le> length (pages (p + i))"
  shows "listRepos_from net user p all log =
         listRepos_from net user (p + k) (all @ concat (map pages [p ..< p + k]))
           (log @ map (repos_url user) [p ..< p + k])"
  using assms
proof (induction k arbitrary: p all log)
  case 0
  then show ?case by simp
next
  case (Suc k)
  have here: "fetchJson net (repos_url user p) = Inr (JArr (pages p))" "100 \<le> length (pages p)"
    using Suc.prems [rule_format, of 0] by simp_all
  have rest: "\<forall>i<k. fetchJson net (repos_url user (Suc p + i)) = Inr (JArr (pages (Suc p + i)))
      \<and> 100 \<le> length (pages (Suc p + i))"
    using Suc.prems by auto
  have "listRepos_from net user p all log =
        listRepos_from net user (Suc p) (all @ pages p) (log @ [repos_url user p])"
    using listRepos_from_full [OF here] by simp
  also have "\<dots> = listRepos_from net user (Suc p + k) ((all @ pages p) @ concat (map pages [Suc p ..< Suc p + k]))
      ((log @ [repos_url user p]) @ map (repos_url user) [Suc p ..< Suc p + k])"
    by (rule Suc.IH [OF rest])
  also have "\<dots> = listRepos_from net user (p + Suc k) (all @ concat (map pages [p ..< p + Suc k]))
      (log @ map (repos_url user) [p ..< p + Suc k])"
    by (simp add: upt_conv_Cons del: upt_Suc)
  finally show ?case .
qed

lemma fetchJson_not_ok:
  "net url = Resolved res \<Longrightarrow> \<not> ok res \<Longrightarrow> fetchJson net url = Inl (HttpError (status res) url)"
  by (simp add: fetchJson_def)

lemma digits_perPage: "digits perPage = ''100''"
  by (simp add: perPage_def digits.simps)

lemma repos_url_text:
  "repos_url user page =
     ''https://api.github.com/users/'' @ user @ ''/repos?per_page=100&page='' @ digits page @ ''&sort=updated''"
  by (simp add: repos_url_def digits_perPage)

lemma mock_urls:
  "repos_url ''maryamali27'' 1 = ''https://api.github.com/users/maryamali27/repos?per_page=100&page=1&sort=updated''"
  "repos_url ''maryamali27'' 2 = ''https://api.github.com/users/maryamali27/repos?per_page=100&page=2&sort=updated''"
  "repos_url ''maryamali27'' 3 = ''https://api.github.com/users/maryamali27/repos?per_page=100&page=3&sort=updated''"
  by (simp_all add: repos_url_text digits.simps)

lemma mock_1:
  "fetchJson mock_upstream ''https://api.github.com/users/maryamali27/repos?per_page=100&page=1&sort=updated''
     = Inr (JArr (mock_pages 1))"
  by (simp add: fetchJson_def mock_upstream_def json_response_def ok_def)

lemma mock_2:
  "fetchJson mock_upstream ''https://api.github.com/users/maryamali27/repos?per_page=100&page=2&sort=updated''
     = Inr (JArr (mock_pages 2))"
  by (simp add: fetchJson_def mock_upstream_def json_response_def ok_def)

lemma mock_3:
  "fetchJson mock_upstream ''https://api.github.com/users/maryamali27/repos?per_page=100&page=3&sort=updated''
     = Inr (JArr (mock_pages 3))"
  by (simp add: fetchJson_def mock_upstream_def json_response_def ok_def)

lemma length_mock_pages: "length (mock_pages 1) = 100" "length (mock_pages 2) = 100" "length (mock_pages 3) = 37"
  by (simp_all add: mock_pages_def mock_items_def)

lemma failing_1: "fetchJson mock_failing (repos_url ''maryamali27'' 1) = Inr (JArr (mock_pages 1))"
  by (simp only: mock_urls) (simp add: fetchJson_def mock_failing_def json_response_def ok_def)

lemma failing_2:
  "mock_failing (repos_url ''maryamali27'' 2) = Resolved \<lparr>status = 500, body_text = [], body_json = None\<rparr>"
  by (simp only: mock_urls) (simp add: mock_failing_def)

text \<open>
  C4. The request for page \<open>p\<close> of the listing is the URL
  \<open>https://api.github.com/users/USER/repos?per_page=100&page=p&sort=updated\<close>. When the
  requests for the pages 1 to \<open>n - 1\<close> each return at least 100 items and page \<open>n\<close> is the
  first to return fewer, the Collector issues exactly the requests for the pages 1 to \<open>n\<close>,
  in this order, and returns their items concatenated in page order. For pages of 100, 100
  and 37 items it returns 237 items after exactly 3 requests.
\<close>

theorem listRepos_pages:
  assumes n: "1 \<le> n"
    and full: "\<forall>p. 1 \<le> p \<and> p < n \<longrightarrow>
        fetchJson net (''https://api.github.com/users/'' @ user @ ''/repos?per_page=100&page=''
                         @ digits p @ ''&sort=updated'') = Inr (JArr (pages p))
        \<and> 100 \<le> length (pages p)"
    and last: "fetchJson net (''https://api.github.com/users/'' @ user @ ''/repos?per_page=100&page=''
                         @ digits n @ ''&sort=updated'') = Inr (JArr (pages n))"
      "length (pages n) < 100"
  shows "listRepos net user =
         Some (Inr (concat (map pages [1 ..< Suc n])),
               map (\<lambda>p. ''https://api.github.com/users/'' @ user @ ''/repos?per_page=100&page=''
                           @ digits p @ ''&sort=updated'') [1 ..< Suc n])"
proof -
  have u: "(\<lambda>p. ''https://api.github.com/users/'' @ user @ ''/repos?per_page=100&page=''
                  @ digits p @ ''&sort=updated'') = repos_url user"
    by (rule ext) (simp only: repos_url_text)
  have last': "fetchJson net (repos_url user n) = Inr (JArr (pages n))"
    using last(1) by (simp only: repos_url_text)
  obtain k where k: "n = 1 + k" using n by (metis le_Suc_ex)
  have "\<forall>i<k. fetchJson net (repos_url user (1 + i)) = Inr (JArr (pages (1 + i))) \<and> 100 \<le> length (pages (1 + i))"
  proof (intro allI impI)
    fix i assume "i < k"
    then have "1 \<le> 1 + i \<and> 1 + i < n" using k by simp
    then show "fetchJson net (repos_url user (1 + i)) = Inr (JArr (pages (1 + i))) \<and> 100 \<le> length (pages (1 + i))"
      using full [rule_format, of "1 + i"] by (simp only: repos_url_text)
  qed
  from listRepos_from_run [OF this, of "[]" "[]"]
  have "listRepos net user = listRepos_from net user n (concat (map pages [1 ..< n])) (map (repos_url user) [1 ..< n])"
    by (simp add: listRepos_def k)
  also have "\<dots> = Some (Inr (concat (map pages [1 ..< n]) @ pages n), map (repos_url user) [1 ..< n] @ [repos_url user n])"
    by (rule listRepos_from_short [OF last' last(2)])
  finally have "listRepos net user =
      Some (Inr (concat (map pages [1 ..< Suc n])), map (repos_url user) [1 ..< Suc n])"
    using n by simp
  then show ?thesis by (simp only: u)
qed

theorem listRepos_pages_witness:
  "listRepos mock_upstream ''maryamali27'' =
     Some (Inr (mock_pages 1 @ mock_pages 2 @ mock_pages 3),
           [''https://api.github.com/users/maryamali27/repos?per_page=100&page=1&sort=updated'',
            ''https://api.github.com/users/maryamali27/repos?per_page=100&page=2&sort=updated'',
            ''https://api.github.com/users/maryamali27/repos?per_page=100&page=3&sort=updated''])
   \<and> length (mock_pages 1 @ mock_pages 2 @ mock_pages 3) = 237"
proof -
  have d: "digits (Suc 0) = ''1''" "digits 1 = ''1''" "digits 2 = ''2''" "digits 3 = ''3''"
    by (simp_all add: digits.simps)
  have full: "\<forall>p. 1 \<le> p \<and> p < 3 \<longrightarrow>
      fetchJson mock_upstream (''https://api.github.com/users/'' @ ''maryamali27'' @ ''/repos?per_page=100&page=''
                         @ digits p @ ''&sort=updated'') = Inr (JArr (mock_pages p))
      \<and> 100 \<le> length (mock_pages p)"
  proof (intro allI impI)
    fix p :: nat assume "1 \<le> p \<and> p < 3"
    then have "p = 1 \<or> p = 2" by arith
    then show "fetchJson mock_upstream (''https://api.github.com/users/'' @ ''maryamali27'' @ ''/repos?per_page=100&page=''
                         @ digits p @ ''&sort=updated'') = Inr (JArr (mock_pages p))
      \<and> 100 \<le> length (mock_pages p)"
      using mock_1 mock_2 length_mock_pages by (auto simp: d)
  qed
  have last: "fetchJson mock_upstream (''https://api.github.com/users/'' @ ''maryamali27'' @ ''/repos?per_page=100&page=''
                         @ digits 3 @ ''&sort=updated'') = Inr (JArr (mock_pages 3))"
    using mock_3 by (simp add: d)
  have "[1 ..< Suc 3] = [1, 2, 3]" by (simp add: upt_conv_Cons)
  then show ?thesis
    using listRepos_pages [of 3 mock_upstream "''maryamali27''" mock_pages, OF _ full last]
      length_mock_pages by (simp add: d)
qed

text \<open>
  C5. When the pages before page \<open>n\<close> are full and the request for page \<open>n\<close> returns a
  status outside 200 to 299, the Collector returns an error that carries the status and
  the URL and none of the items of the earlier pages, and the generator's run ends with
  that error.
\<close>

theorem listRepos_aborts:
  assumes n: "1 \<le> n"
    and full: "\<forall>p. 1 \<le> p \<and> p < n \<longrightarrow>
        fetchJson net (repos_url user p) = Inr (JArr (pages p)) \<and> 100 \<le> length (pages p)"
    and bad: "net (repos_url user n) = Resolved res" "\<not> ok res"
  shows "listRepos net user =
           Some (Inl (HttpError (status res) (repos_url user n)), map (repos_url user) [1 ..< Suc n])
         \<and> generate sn net user = Some (Inl (HttpError (status res) (repos_url user n)))"
proof -
  obtain k where k: "n = 1 + k" using n by (metis le_Suc_ex)
  have "\<forall>i<k. fetchJson net (repos_url user (1 + i)) = Inr (JArr (pages (1 + i))) \<and> 100 \<le> length (pages (1 + i))"
    using full k by auto
  from listRepos_from_run [OF this, of "[]" "[]"]
  have "listRepos net user = listRepos_from net user n (concat (map pages [1 ..< n])) (map (repos_url user) [1 ..< n])"
    by (simp add: listRepos_def k)
  also have "\<dots> = Some (Inl (HttpError (status res) (repos_url user n)), map (repos_url user) [1 ..< n] @ [repos_url user n])"
    using fetchJson_not_ok [of net "repos_url user n" res, OF bad] by (rule listRepos_from_error)
  finally have l: "listRepos net user =
      Some (Inl (HttpError (status res) (repos_url user n)), map (repos_url user) [1 ..< Suc n])"
    using n by simp
  then show ?thesis by (simp add: generate_def)
qed


theorem listRepos_aborts_witness:
  "listRepos mock_failing ''maryamali27'' =
     Some (Inl (HttpError 500 (repos_url ''maryamali27'' 2)),
           [repos_url ''maryamali27'' 1, repos_url ''maryamali27'' 2])
   \<and> generate (\<lambda>s. None) mock_failing ''maryamali27'' =
       Some (Inl (HttpError 500 (repos_url ''maryamali27'' 2)))"
proof -
  have full: "\<forall>p. 1 \<le> p \<and> p < 2 \<longrightarrow>
      fetchJson mock_failing (repos_url ''maryamali27'' p) = Inr (JArr (mock_pages p)) \<and> 100 \<le> length (mock_pages p)"
  proof (intro allI impI)
    fix p :: nat assume "1 \<le> p \<and> p < 2"
    then have "p = 1" by arith
    then show "fetchJson mock_failing (repos_url ''maryamali27'' p) = Inr (JArr (mock_pages p)) \<and> 100 \<le> length (mock_pages p)"
      using failing_1 length_mock_pages by auto
  qed
  have "[1 ..< Suc 2] = [1, 2]" by (simp add: upt_conv_Cons)
  then show ?thesis
    using listRepos_aborts [of 2 mock_failing "''maryamali27''" mock_pages _ "\<lambda>s. None", OF _ full failing_2]
    by (simp add: ok_def)
qed

section \<open>Properties of the Ranker\<close>

lemma compareStars_num:
  assumes "is_num (js_get a ''stars'')" "is_num (js_get b ''stars'')"
  shows "compareStars sn a b = stars_of b - stars_of a"
proof -
  obtain x where x: "js_get a ''stars'' = JNum x" using assms(1) by (cases "js_get a ''stars''") auto
  obtain y where y: "js_get b ''stars'' = JNum y" using assms(2) by (cases "js_get b ''stars''") auto
  show ?thesis by (simp add: compareStars_def stars_of_def js_or_def x y)
qed

lemma compareStars_same:
  "js_get a ''stars'' = js_get b ''stars'' \<Longrightarrow> compareStars sn a b = 0"
  by (simp add: compareStars_def split: option.splits)

lemma mset_insert_by: "mset (insert_by cmp x ys) = add_mset x (mset ys)"
  by (induction ys) auto

lemma set_insert_by: "set (insert_by cmp x ys) = insert x (set ys)"
  by (induction ys) auto

lemma mset_js_sort: "mset (js_sort cmp xs) = mset xs"
  by (induction xs) (simp_all add: js_sort_def mset_insert_by)

lemma set_js_sort: "set (js_sort cmp xs) = set xs"
  using mset_js_sort [of cmp xs] by (metis set_mset_mset)

lemma length_js_sort: "length (js_sort cmp xs) = length xs"
  using mset_js_sort [of cmp xs] by (metis size_mset)

lemma js_sort_Cons: "js_sort cmp (x # xs) = insert_by cmp x (js_sort cmp xs)"
  by (simp add: js_sort_def)

lemma sorted_insert_by:
  fixes key :: "'a \<Rightarrow> int"
  assumes "\<forall>y\<in>set ys. cmp x y = key y - key x"
    and "sorted_wrt (\<lambda>a b. key b \<le> key a) ys"
  shows "sorted_wrt (\<lambda>a b. key b \<le> key a) (insert_by cmp x ys)"
  using assms
proof (induction ys)
  case Nil
  then show ?case by simp
next
  case (Cons y ys)
  show ?case
  proof (cases "cmp x y \<le> 0")
    case True
    then have "key y \<le> key x" using Cons.prems(1) by simp
    then have "\<forall>z\<in>set (y # ys). key z \<le> key x" using Cons.prems(2) by fastforce
    then show ?thesis using True Cons.prems(2) by simp
  next
    case False
    then have "key x \<le> key y" using Cons.prems(1) by simp
    moreover have "sorted_wrt (\<lambda>a b. key b \<le> key a) (insert_by cmp x ys)"
      using Cons by simp
    ultimately show ?thesis using False Cons.prems(2) by (auto simp: set_insert_by)
  qed
qed

lemma sorted_js_sort:
  fixes key :: "'a \<Rightarrow> int"
  assumes "\<forall>x\<in>set xs. \<forall>y\<in>set xs. cmp x y = key y - key x"
  shows "sorted_wrt (\<lambda>a b. key b \<le> key a) (js_sort cmp xs)"
  using assms
proof (induction xs)
  case Nil
  then show ?case by (simp add: js_sort_def)
next
  case (Cons x xs)
  have "sorted_wrt (\<lambda>a b. key b \<le> key a) (js_sort cmp xs)" using Cons by simp
  moreover have "\<forall>y\<in>set (js_sort cmp xs). cmp x y = key y - key x"
    using Cons.prems by (simp add: set_js_sort)
  ultimately show ?case unfolding js_sort_Cons by (intro sorted_insert_by)
qed

lemma filter_insert_by:
  assumes "\<forall>y\<in>set ys. P x \<and> P y \<longrightarrow> cmp x y \<le> 0"
  shows "filter P (insert_by cmp x ys) = (if P x then x # filter P ys else filter P ys)"
  using assms by (induction ys) auto

lemma filter_js_sort:
  assumes "\<forall>x\<in>set xs. \<forall>y\<in>set xs. P x \<and> P y \<longrightarrow> cmp x y \<le> 0"
  shows "filter P (js_sort cmp xs) = filter P xs"
  using assms
proof (induction xs)
  case Nil
  then show ?case by (simp add: js_sort_def)
next
  case (Cons x xs)
  have "filter P (js_sort cmp xs) = filter P xs" using Cons by simp
  moreover have "\<forall>y\<in>set (js_sort cmp xs). P x \<and> P y \<longrightarrow> cmp x y \<le> 0"
    using Cons.prems by (simp add: set_js_sort)
  ultimately show ?case unfolding js_sort_Cons by (simp add: filter_insert_by)
qed

lemma js_get_js_set_other: "k' \<noteq> k \<Longrightarrow> js_get (js_set p k v) k' = js_get p k'"
  by (cases p) (simp_all add: update_conv')

lemma js_get_js_set_same: "js_get p k = JBool False \<Longrightarrow> js_get (js_set p k v) k = v"
  by (cases p) (auto simp: update_conv' split: if_splits)

lemma js_set_restore: "js_get p k = JBool False \<Longrightarrow> js_set (js_set p k v) k (JBool False) = p"
proof (cases p)
  case (JObj kvs)
  assume "js_get p k = JBool False"
  then have "map_of kvs k = Some (JBool False)" using JObj by (auto split: option.splits)
  then show ?thesis using JObj by (simp add: update_triv)
qed (auto split: if_splits)

lemma js_set_same: "js_get p k = JBool False \<Longrightarrow> js_set p k (JBool False) = p"
proof (cases p)
  case (JObj kvs)
  assume "js_get p k = JBool False"
  then have "map_of kvs k = Some (JBool False)" using JObj by (auto split: option.splits)
  then show ?thesis using JObj by (simp add: update_triv)
qed (auto split: if_splits)

lemma stars_of_js_set: "stars_of (js_set p ''featured'' v) = stars_of p"
  by (simp add: stars_of_def js_get_js_set_other)

lemma filter_above_sorted:
  fixes key :: "'a \<Rightarrow> int"
  assumes "sorted_wrt (\<lambda>a b. key b < key a) S" "i < length S"
  shows "filter (\<lambda>p. key (S ! i) < key p) S = take i S"
  using assms
proof (induction S arbitrary: i)
  case Nil
  then show ?case by simp
next
  case (Cons x xs)
  show ?case
  proof (cases i)
    case 0
    have "\<forall>p\<in>set xs. \<not> key x < key p" using Cons.prems(1) by fastforce
    then have "filter (\<lambda>p. key x < key p) xs = []" by (simp add: filter_empty_conv)
    then show ?thesis using 0 by simp
  next
    case (Suc j)
    then have j: "j < length xs" using Cons.prems(2) by simp
    then have "key (xs ! j) < key x" using Cons.prems(1) by simp
    moreover have "filter (\<lambda>p. key (xs ! j) < key p) xs = take j xs"
      using Cons.IH [OF _ j] Cons.prems(1) by simp
    ultimately show ?thesis using Suc by simp
  qed
qed

lemma strict_sorted:
  fixes key :: "'a \<Rightarrow> int"
  assumes "sorted_wrt (\<lambda>a b. key b \<le> key a) S" "distinct (map key S)"
  shows "sorted_wrt (\<lambda>a b. key b < key a) S"
  using assms
proof (induction S)
  case Nil
  then show ?case by simp
next
  case (Cons x xs)
  have "\<forall>y\<in>set xs. key y < key x"
  proof
    fix y assume y: "y \<in> set xs"
    then have "key y \<le> key x" using Cons.prems(1) by simp
    moreover have "key x \<notin> key ` set xs" using Cons.prems(2) by simp
    then have "key y \<noteq> key x" using y by (metis imageI)
    ultimately show "key y < key x" by simp
  qed
  then show ?case using Cons by simp
qed

lemma length_filter_mset: "mset xs = mset ys \<Longrightarrow> length (filter P xs) = length (filter P ys)"
  by (metis mset_filter size_mset)

lemma distinct_map_mset:
  assumes "mset xs = mset ys" "distinct (map f ys)"
  shows "distinct (map f xs)"
proof -
  have "mset (map f xs) = mset (map f ys)" using assms(1) by (metis mset_map)
  then show ?thesis using assms(2) by (metis mset_eq_imp_distinct_iff)
qed

text \<open>
  C3. On records whose \<open>stars\<close> are numbers, the Ranker's sort puts the records in
  descending order of stars, keeps every record, and is stable: for every star value, the
  records with that value appear in the sorted output in the order they had in the input.
\<close>

theorem rank_sort_stable:
  assumes "\<forall>p\<in>set ps. is_num (js_get p ''stars'')"
  shows "filter (\<lambda>p. js_get p ''stars'' = v) (js_sort (compareStars sn) ps)
           = filter (\<lambda>p. js_get p ''stars'' = v) ps
         \<and> sorted_wrt (\<lambda>a b. stars_of b \<le> stars_of a) (js_sort (compareStars sn) ps)
         \<and> mset (js_sort (compareStars sn) ps) = mset ps"
proof (intro conjI)
  show "filter (\<lambda>p. js_get p ''stars'' = v) (js_sort (compareStars sn) ps)
           = filter (\<lambda>p. js_get p ''stars'' = v) ps"
    by (rule filter_js_sort) (simp add: compareStars_same)
  show "sorted_wrt (\<lambda>a b. stars_of b \<le> stars_of a) (js_sort (compareStars sn) ps)"
    by (rule sorted_js_sort) (use assms in \<open>simp add: compareStars_num\<close>)
  show "mset (js_sort (compareStars sn) ps) = mset ps" by (rule mset_js_sort)
qed


theorem rank_sort_stable_witness:
  "list_all (\<lambda>p. is_num (js_get p ''stars'')) projects_tied \<and>
   filter (\<lambda>p. js_get p ''stars'' = JNum 5) (js_sort (compareStars (\<lambda>s. None)) projects_tied)
     = [repoObj (sample_repo ''a'' 5), repoObj (sample_repo ''c'' 5)] \<and>
   map stars_of (js_sort (compareStars (\<lambda>s. None)) projects_tied) = [7, 5, 5, 0]"
proof -
  have h: "\<forall>p\<in>set projects_tied. is_num (js_get p ''stars'')" by code_simp
  have f: "filter (\<lambda>p. js_get p ''stars'' = JNum 5) projects_tied
      = [repoObj (sample_repo ''a'' 5), repoObj (sample_repo ''c'' 5)]" by code_simp
  have m: "map stars_of (js_sort (compareStars (\<lambda>s. None)) projects_tied) = [7, 5, 5, 0]" by code_simp
  have h': "list_all (\<lambda>p. is_num (js_get p ''stars'')) projects_tied"
    using h by (simp only: list_all_iff)
  show ?thesis using rank_sort_stable [OF h, of "JNum 5" "\<lambda>s. None"] h' f m by simp
qed

text \<open>
  C2. For records that all start with \<open>featured = false\<close>, ranking keeps every record
  and changes nothing but the flag; exactly \<open>min 3 N\<close> records end up featured, so with
  fewer than three records every record is featured. When the star counts are numbers and
  distinct, a record ends up featured exactly when fewer than three records have more
  stars than it: with three records or more, the featured ones are exactly the three with
  the highest stars.
\<close>

theorem rank_features_top_three:
  assumes unset: "\<forall>p\<in>set ps. js_get p ''featured'' = JBool False"
  shows "mset (map (\<lambda>q. js_set q ''featured'' (JBool False)) (rank sn ps)) = mset ps
       \<and> length (filter (\<lambda>q. js_get q ''featured'' = JBool True) (rank sn ps)) = min 3 (length ps)
       \<and> (length ps < 3 \<longrightarrow> (\<forall>q\<in>set (rank sn ps). js_get q ''featured'' = JBool True))
       \<and> ((\<forall>p\<in>set ps. is_num (js_get p ''stars'')) \<and> distinct (map stars_of ps) \<longrightarrow>
            (\<forall>q\<in>set (rank sn ps).
               js_get q ''featured'' = JBool (length (filter (\<lambda>p. stars_of q < stars_of p) ps) < 3)))"
proof -
  define S where "S = js_sort (compareStars sn) ps"
  define feat where "feat = (\<lambda>p. js_set p ''featured'' (JBool True))"
  have out: "rank sn ps = map feat (take 3 S) @ drop 3 S"
    by (simp add: rank_def S_def feat_def Let_def)
  have mS: "mset S = mset ps" unfolding S_def by (rule mset_js_sort)
  have setS: "set S = set ps" using mS by (metis set_mset_mset)
  have lenS: "length S = length ps" using mS by (metis size_mset)
  have unsetS: "\<forall>p\<in>set S. js_get p ''featured'' = JBool False" using unset setS by simp
  have strict: "sorted_wrt (\<lambda>a b. stars_of b < stars_of a) S"
    if num: "\<forall>p\<in>set ps. is_num (js_get p ''stars'')" and dist: "distinct (map stars_of ps)"
  proof -
    have "sorted_wrt (\<lambda>a b. stars_of b \<le> stars_of a) S"
      unfolding S_def by (rule sorted_js_sort) (use num in \<open>simp add: compareStars_num\<close>)
    moreover have "distinct (map stars_of S)" using mS dist by (rule distinct_map_mset)
    ultimately show ?thesis by (rule strict_sorted)
  qed
  have nth_out: "rank sn ps ! i = (if i < 3 then feat (S ! i) else S ! i)" if "i < length S" for i
    using that by (auto simp: out nth_append min_def)
  have len_out: "length (rank sn ps) = length S" by (simp add: out)
  have flag: "js_get (rank sn ps ! i) ''featured'' = JBool (i < 3)" if "i < length S" for i
  proof -
    have "js_get (S ! i) ''featured'' = JBool False" using unsetS that by simp
    then show ?thesis using nth_out [OF that] by (simp add: feat_def js_get_js_set_same)
  qed
  have stars: "stars_of (rank sn ps ! i) = stars_of (S ! i)" if "i < length S" for i
    using nth_out [OF that] by (simp add: feat_def stars_of_js_set)
  have above: "length (filter (\<lambda>p. stars_of (rank sn ps ! i) < stars_of p) ps) = i"
    if "i < length S" and num: "\<forall>p\<in>set ps. is_num (js_get p ''stars'')"
      and dist: "distinct (map stars_of ps)" for i
  proof -
    have "length (filter (\<lambda>p. stars_of (S ! i) < stars_of p) ps)
        = length (filter (\<lambda>p. stars_of (S ! i) < stars_of p) S)"
      using mS by (intro length_filter_mset) simp
    also have "\<dots> = length (take i S)"
      using filter_above_sorted [OF strict [OF num dist] that(1)] by simp
    finally show ?thesis using that(1) by (simp add: stars)
  qed
  have c1: "mset (map (\<lambda>q. js_set q ''featured'' (JBool False)) (rank sn ps)) = mset ps"
  proof -
    have "map (\<lambda>q. js_set (feat q) ''featured'' (JBool False)) (take 3 S) = take 3 S"
    proof (rule map_idI)
      fix q assume "q \<in> set (take 3 S)"
      then have "js_get q ''featured'' = JBool False" using unsetS by (auto dest: in_set_takeD)
      then show "js_set (feat q) ''featured'' (JBool False) = q" by (simp add: feat_def js_set_restore)
    qed
    then have "map (\<lambda>q. js_set q ''featured'' (JBool False)) (map feat (take 3 S)) = take 3 S"
      by (simp add: comp_def)
    moreover have "map (\<lambda>q. js_set q ''featured'' (JBool False)) (drop 3 S) = drop 3 S"
    proof (rule map_idI)
      fix q assume "q \<in> set (drop 3 S)"
      then have "js_get q ''featured'' = JBool False" using unsetS by (auto dest: in_set_dropD)
      then show "js_set q ''featured'' (JBool False) = q" by (rule js_set_same)
    qed
    ultimately have "map (\<lambda>q. js_set q ''featured'' (JBool False)) (rank sn ps) = S"
      by (simp add: out)
    then show ?thesis using mS by simp
  qed
  have c2: "(\<forall>p\<in>set ps. is_num (js_get p ''stars'')) \<and> distinct (map stars_of ps) \<longrightarrow>
      (\<forall>q\<in>set (rank sn ps).
         js_get q ''featured'' = JBool (length (filter (\<lambda>p. stars_of q < stars_of p) ps) < 3))"
  proof (intro impI ballI)
    fix q
    assume nd: "(\<forall>p\<in>set ps. is_num (js_get p ''stars'')) \<and> distinct (map stars_of ps)"
      and "q \<in> set (rank sn ps)"
    then obtain i where i: "i < length S" "q = rank sn ps ! i"
      using len_out by (metis in_set_conv_nth)
    have "length (filter (\<lambda>p. stars_of (rank sn ps ! i) < stars_of p) ps) = i"
      using above [OF i(1)] nd by blast
    then show "js_get q ''featured'' = JBool (length (filter (\<lambda>p. stars_of q < stars_of p) ps) < 3)"
      using flag [OF i(1)] i(2) by simp
  qed
  have c3: "length (filter (\<lambda>q. js_get q ''featured'' = JBool True) (rank sn ps)) = min 3 (length ps)"
  proof -
    have "\<forall>q\<in>set (map feat (take 3 S)). js_get q ''featured'' = JBool True"
    proof
      fix q assume "q \<in> set (map feat (take 3 S))"
      then obtain p where p: "p \<in> set S" "q = feat p" by (auto dest: in_set_takeD)
      then have "js_get p ''featured'' = JBool False" using unsetS by simp
      then show "js_get q ''featured'' = JBool True" using p(2) by (simp add: feat_def js_get_js_set_same)
    qed
    then have "filter (\<lambda>q. js_get q ''featured'' = JBool True) (map feat (take 3 S)) = map feat (take 3 S)"
      by (simp only: filter_id_conv)
    moreover have "\<forall>q\<in>set (drop 3 S). js_get q ''featured'' \<noteq> JBool True"
      using unsetS by (auto dest: in_set_dropD)
    then have "filter (\<lambda>q. js_get q ''featured'' = JBool True) (drop 3 S) = []"
      by (simp only: filter_empty_conv)
    ultimately show ?thesis by (simp add: out lenS min.commute)
  qed
  have c4: "length ps < 3 \<longrightarrow> (\<forall>q\<in>set (rank sn ps). js_get q ''featured'' = JBool True)"
  proof (intro impI ballI)
    fix q assume n: "length ps < 3" and "q \<in> set (rank sn ps)"
    then obtain i where i: "i < length S" "q = rank sn ps ! i"
      using len_out by (metis in_set_conv_nth)
    then have "i < 3" using n lenS by simp
    then show "js_get q ''featured'' = JBool True" using flag [OF i(1)] i(2) by simp
  qed
  show ?thesis using c1 c2 c3 c4 by blast
qed


theorem rank_features_top_three_witness:
  "list_all (\<lambda>p. is_num (js_get p ''stars'')) projects_distinct \<and>
   list_all (\<lambda>p. js_get p ''featured'' = JBool False) projects_distinct \<and>
   distinct (map stars_of projects_distinct) \<and>
   list_all (\<lambda>q. js_get q ''featured'' =
      JBool (length (filter (\<lambda>p. stars_of q < stars_of p) projects_distinct) < 3))
      (rank (\<lambda>s. None) projects_distinct) \<and>
   length (filter (\<lambda>q. js_get q ''featured'' = JBool True) (rank (\<lambda>s. None) projects_distinct)) = 3 \<and>
   map (\<lambda>q. (js_get q ''name'', js_get q ''featured'')) (rank (\<lambda>s. None) projects_distinct)
     = [(JStr ''d'', JBool True), (JStr ''b'', JBool True), (JStr ''a'', JBool True), (JStr ''c'', JBool False)] \<and>
   list_all (\<lambda>p. is_num (js_get p ''stars'')) projects_pair \<and>
   list_all (\<lambda>p. js_get p ''featured'' = JBool False) projects_pair \<and>
   distinct (map stars_of projects_pair) \<and>
   length projects_pair < 3 \<and>
   list_all (\<lambda>q. js_get q ''featured'' = JBool True) (rank (\<lambda>s. None) projects_pair)"
proof -
  have h1: "\<forall>p\<in>set projects_distinct. is_num (js_get p ''stars'')" by code_simp
  have h2: "\<forall>p\<in>set projects_distinct. js_get p ''featured'' = JBool False" by code_simp
  have h3: "distinct (map stars_of projects_distinct)" by code_simp
  have l: "length projects_distinct = 4" by (simp add: projects_distinct_def)
  have e: "map (\<lambda>q. (js_get q ''name'', js_get q ''featured'')) (rank (\<lambda>s. None) projects_distinct)
     = [(JStr ''d'', JBool True), (JStr ''b'', JBool True), (JStr ''a'', JBool True), (JStr ''c'', JBool False)]"
    by code_simp
  have g1: "\<forall>p\<in>set projects_pair. is_num (js_get p ''stars'')" by code_simp
  have g2: "\<forall>p\<in>set projects_pair. js_get p ''featured'' = JBool False" by code_simp
  have g3: "distinct (map stars_of projects_pair)" by code_simp
  have k: "length projects_pair < 3" by (simp add: projects_pair_def)
  have "length (filter (\<lambda>q. js_get q ''featured'' = JBool True) (rank (\<lambda>s. None) projects_distinct))
      = min 3 (length projects_distinct)"
    using rank_features_top_three [OF h2, of "\<lambda>s. None"] by blast
  then have a: "length (filter (\<lambda>q. js_get q ''featured'' = JBool True) (rank (\<lambda>s. None) projects_distinct)) = 3"
    using l by simp
  have b: "\<forall>q\<in>set (rank (\<lambda>s. None) projects_pair). js_get q ''featured'' = JBool True"
    using rank_features_top_three [OF g2, of "\<lambda>s. None"] k by blast
  have c: "\<forall>q\<in>set (rank (\<lambda>s. None) projects_distinct).
      js_get q ''featured'' = JBool (length (filter (\<lambda>p. stars_of q < stars_of p) projects_distinct) < 3)"
    using rank_features_top_three [OF h2, of "\<lambda>s. None"] h1 h3 by blast
  have d: "list_all (\<lambda>q. js_get q ''featured'' =
      JBool (length (filter (\<lambda>p. stars_of q < stars_of p) projects_distinct) < 3))
      (rank (\<lambda>s. None) projects_distinct)"
    using c by (simp only: list_all_iff)
  show ?thesis using h1 h2 h3 a e g1 g2 g3 k b d by (simp only: list_all_iff)
qed

section \<open>Properties of the Normalizer\<close>

lemma is_str_js_or: "opt_str v \<Longrightarrow> is_str d \<Longrightarrow> is_str (js_or v d)"
  by (cases v) (auto simp: opt_str_def js_or_def)

lemma is_count_js_or: "opt_count v \<Longrightarrow> is_count (js_or v (JNum 0))"
  by (cases v) (auto simp: opt_count_def js_or_def)

lemma tags_ok:
  "nullish t \<or> is_str_list t \<Longrightarrow>
   is_str_list (if truthy (js_and t (js_get t ''length'')) then t else JArr [])"
  by (cases t) (auto simp: js_and_def)

lemma license_ok:
  "wf_license l \<Longrightarrow>
   is_str (if truthy l then js_or (js_get l ''spdx_id'') (js_get l ''name'') else JStr [])"
proof (cases l)
  case (JObj kvs)
  assume "wf_license l"
  then have "opt_str (js_get l ''spdx_id'')" "is_str (js_get l ''name'')"
    using JObj by (auto simp: wf_license_def)
  then have "is_str (js_or (js_get l ''spdx_id'') (js_get l ''name''))" by (rule is_str_js_or)
  then show ?thesis using JObj by simp
qed (auto simp: wf_license_def)

lemma repoObj_fields:
  "js_get (repoObj r) ''name'' = js_get r ''name''"
  "js_get (repoObj r) ''repo'' = js_get r ''html_url''"
  "js_get (repoObj r) ''desc'' = js_or (js_get r ''description'') (JStr [])"
  "js_get (repoObj r) ''tags'' =
     (if truthy (js_and (js_get r ''topics'') (js_get (js_get r ''topics'') ''length''))
      then js_get r ''topics'' else JArr [])"
  "js_get (repoObj r) ''stars'' = js_or (js_get r ''stargazers_count'') (JNum 0)"
  "js_get (repoObj r) ''forks'' = js_or (js_get r ''forks_count'') (JNum 0)"
  "js_get (repoObj r) ''featured'' = JBool False"
  "js_get (repoObj r) ''updated_at'' = js_get r ''updated_at''"
  "js_get (repoObj r) ''created_at'' = js_get r ''created_at''"
  "js_get (repoObj r) ''language'' = js_or (js_get r ''language'') (JStr [])"
  "js_get (repoObj r) ''license'' =
     (if truthy (js_get r ''license'')
      then js_or (js_get (js_get r ''license'') ''spdx_id'') (js_get (js_get r ''license'') ''name'')
      else JStr [])"
  "js_get (repoObj r) ''thumbnail'' = safeThumbnail (js_get r ''full_name'')"
  "js_get (repoObj r) ''screenshots'' = JArr []"
  "js_get (repoObj r) ''size'' = js_or (js_get r ''size'') (JNum 0)"
  "js_get (repoObj r) ''open_issues_count'' = js_or (js_get r ''open_issues_count'') (JNum 0)"
  "js_get (repoObj r) ''default_branch'' = js_or (js_get r ''default_branch'') (JStr ''main'')"
  by (simp_all add: repoObj_def)

lemma clientObj_fields:
  "js_get (clientObj r) ''name'' = js_get r ''name''"
  "js_get (clientObj r) ''repo'' = js_get r ''html_url''"
  "js_get (clientObj r) ''desc'' = js_or (js_get r ''description'') (JStr [])"
  "js_get (clientObj r) ''tags'' =
     (if truthy (js_and (js_get r ''topics'') (js_get (js_get r ''topics'') ''length''))
      then js_get r ''topics'' else JArr [])"
  "js_get (clientObj r) ''stars'' = js_or (js_get r ''stargazers_count'') (JNum 0)"
  "js_get (clientObj r) ''forks'' = js_or (js_get r ''forks_count'') (JNum 0)"
  "js_get (clientObj r) ''featured'' = JBool False"
  "js_get (clientObj r) ''updated_at'' = js_get r ''updated_at''"
  "js_get (clientObj r) ''created_at'' = js_get r ''created_at''"
  "js_get (clientObj r) ''language'' = js_or (js_get r ''language'') (JStr [])"
  "js_get (clientObj r) ''license'' =
     (if truthy (js_get r ''license'')
      then js_or (js_get (js_get r ''license'') ''spdx_id'') (js_get (js_get r ''license'') ''name'')
      else JStr [])"
  "js_get (clientObj r) ''thumbnail'' = JStr (''https://opengraph.githubassets.com/1/'' @ to_string (js_get r ''full_name''))"
  "js_get (clientObj r) ''screenshots'' = JArr []"
  "js_get (clientObj r) ''size'' = js_or (js_get r ''size'') (JNum 0)"
  "js_get (clientObj r) ''open_issues_count'' = js_or (js_get r ''open_issues_count'') (JNum 0)"
  "js_get (clientObj r) ''default_branch'' = js_or (js_get r ''default_branch'') (JStr ''main'')"
  "js_get (clientObj r) ''readme_excerpt'' = JStr []"
  "js_get (clientObj r) ''contributors'' = JUndef"
  by (simp_all add: clientObj_def)

lemma repoObj_is_obj: "\<exists>kvs. repoObj r = JObj kvs"
  by (simp add: repoObj_def)

lemma project_of_other:
  "k \<noteq> ''readme_excerpt'' \<Longrightarrow> k \<noteq> ''contributors'' \<Longrightarrow>
   js_get (project_of net r) k = js_get (repoObj r) k"
  by (simp add: project_of_def Let_def js_get_js_set_other)

lemma project_of_contributors:
  "js_get (project_of net r) ''contributors'' = getContributors net (js_get r ''full_name'')"
proof -
  obtain kvs where "repoObj r = JObj kvs" using repoObj_is_obj by blast
  then show ?thesis by (simp add: project_of_def Let_def update_conv')
qed

lemma project_of_readme:
  "js_get (project_of net r) ''readme_excerpt'' =
     JStr (case getRepoReadme net (js_get r ''full_name'') of
             Some md \<Rightarrow> if md \<noteq> [] then excerptMarkdown md 1400 else []
           | None \<Rightarrow> [])"
proof -
  obtain kvs where "repoObj r = JObj kvs" using repoObj_is_obj by blast
  then show ?thesis by (simp add: project_of_def Let_def update_conv')
qed

lemma is_contributor_contributor: "wf_contributor c \<Longrightarrow> is_contributor (contributor c)"
  by (simp add: wf_contributor_def contributor_def)

lemma getContributors_ok:
  assumes "contributors_typed net full"
  shows "is_contributor_list (getContributors net full)"
proof (cases "fetchJson net (contributors_url full)")
  case (Inl e)
  then show ?thesis by (simp add: getContributors_def)
next
  case (Inr data)
  show ?thesis
  proof (cases data)
    case (JArr cs)
    then have "list_all wf_contributor cs"
      using assms Inr by (simp add: contributors_typed_def)
    then have "list_all is_contributor (map contributor cs)"
      by (simp add: list_all_iff is_contributor_contributor)
    then show ?thesis using Inr JArr by (simp add: getContributors_def)
  qed (simp_all add: getContributors_def Inr)
qed

lemma base_fields_repoObj:
  assumes "wf_summary r"
  shows "is_str (js_get (repoObj r) ''name'')" "is_str (js_get (repoObj r) ''repo'')"
    "is_str (js_get (repoObj r) ''desc'')" "is_str_list (js_get (repoObj r) ''tags'')"
    "is_count (js_get (repoObj r) ''stars'')" "is_count (js_get (repoObj r) ''forks'')"
    "is_bool (js_get (repoObj r) ''featured'')" "is_str (js_get (repoObj r) ''updated_at'')"
    "is_str (js_get (repoObj r) ''created_at'')" "is_str (js_get (repoObj r) ''language'')"
    "is_str (js_get (repoObj r) ''license'')" "is_str (js_get (repoObj r) ''thumbnail'')"
    "is_arr (js_get (repoObj r) ''screenshots'')" "is_count (js_get (repoObj r) ''size'')"
    "is_count (js_get (repoObj r) ''open_issues_count'')"
    "is_str (js_get (repoObj r) ''default_branch'')"
proof -
  obtain kvs where r: "r = JObj kvs" using assms by (cases r) (auto simp: wf_summary_def)
  have wf: "is_str (js_get r ''name'')" "is_str (js_get r ''full_name'')"
    "is_str (js_get r ''html_url'')" "is_str (js_get r ''updated_at'')"
    "is_str (js_get r ''created_at'')"
    "opt_count (js_get r ''stargazers_count'')" "opt_count (js_get r ''forks_count'')"
    "opt_count (js_get r ''size'')" "opt_count (js_get r ''open_issues_count'')"
    "opt_str (js_get r ''description'')" "opt_str (js_get r ''language'')"
    "opt_str (js_get r ''default_branch'')"
    "nullish (js_get r ''topics'') \<or> is_str_list (js_get r ''topics'')"
    "wf_license (js_get r ''license'')"
    using assms unfolding r wf_summary_def by simp_all
  show "is_str (js_get (repoObj r) ''name'')" using wf(1) by (simp only: repoObj_fields)
  show "is_str (js_get (repoObj r) ''repo'')" using wf(3) by (simp only: repoObj_fields)
  show "is_str (js_get (repoObj r) ''desc'')"
    unfolding repoObj_fields using wf(10) by (rule is_str_js_or) simp
  show "is_str_list (js_get (repoObj r) ''tags'')"
    unfolding repoObj_fields using wf(13) by (rule tags_ok)
  show "is_count (js_get (repoObj r) ''stars'')"
    unfolding repoObj_fields using wf(6) by (rule is_count_js_or)
  show "is_count (js_get (repoObj r) ''forks'')"
    unfolding repoObj_fields using wf(7) by (rule is_count_js_or)
  show "is_bool (js_get (repoObj r) ''featured'')" by (simp add: repoObj_fields)
  show "is_str (js_get (repoObj r) ''updated_at'')" using wf(4) by (simp only: repoObj_fields)
  show "is_str (js_get (repoObj r) ''created_at'')" using wf(5) by (simp only: repoObj_fields)
  show "is_str (js_get (repoObj r) ''language'')"
    unfolding repoObj_fields using wf(11) by (rule is_str_js_or) simp
  show "is_str (js_get (repoObj r) ''license'')"
    unfolding repoObj_fields using wf(14) by (rule license_ok)
  show "is_str (js_get (repoObj r) ''thumbnail'')" by (simp add: repoObj_fields safeThumbnail_def)
  show "is_arr (js_get (repoObj r) ''screenshots'')" by (simp add: repoObj_fields)
  show "is_count (js_get (repoObj r) ''size'')"
    unfolding repoObj_fields using wf(8) by (rule is_count_js_or)
  show "is_count (js_get (repoObj r) ''open_issues_count'')"
    unfolding repoObj_fields using wf(9) by (rule is_count_js_or)
  show "is_str (js_get (repoObj r) ''default_branch'')"
    unfolding repoObj_fields using wf(12) by (rule is_str_js_or) simp
qed

lemma clientObj_repoObj:
  "k \<noteq> ''readme_excerpt'' \<Longrightarrow> js_get (clientObj r) k = js_get (repoObj r) k"
  by (simp add: clientObj_def repoObj_def safeThumbnail_def)

lemma offline_record_ok:
  assumes "wf_summary r" "contributors_typed net (js_get r ''full_name'')"
  shows "record_ok (project_of net r)"
proof -
  note b = base_fields_repoObj [OF assms(1)]
  have "base_fields_ok (project_of net r)"
    unfolding base_fields_ok_def
    using b by (simp add: project_of_other project_of_readme)
  moreover have "is_contributor_list (js_get (project_of net r) ''contributors'')"
    using assms(2) by (simp add: project_of_contributors getContributors_ok)
  ultimately show ?thesis by (simp add: record_ok_def)
qed

lemma client_base_fields_ok:
  assumes "wf_summary r"
  shows "base_fields_ok (clientObj r)"
  unfolding base_fields_ok_def
  using base_fields_repoObj [OF assms] by (simp add: clientObj_repoObj clientObj_fields(17))

lemma client_no_contributors:
  "js_get (clientObj r) ''contributors'' = JUndef \<and> \<not> record_ok (clientObj r)"
  by (simp add: clientObj_fields(18) record_ok_def)

lemma sample_records:
  "record_ok (project_of single_repo_net sample_repo_full) \<and>
   base_fields_ok (clientObj sample_repo_full) \<and>
   js_get (clientObj sample_repo_full) ''contributors'' = JUndef"
proof -
  have w: "wf_summary sample_repo_full" by code_simp
  have c: "contributors_typed single_repo_net (js_get sample_repo_full ''full_name'')" by code_simp
  show ?thesis
    using offline_record_ok [OF w c] client_base_fields_ok [OF w] client_no_contributors [of sample_repo_full]
    by blast
qed

text \<open>
  C1. The claim holds on the generator's path and fails on the client's. For the account
  with the single repository \<open>portfolio\<close>, whose summary is well formed, the client-side
  fallback returns one record; its seventeen other fields are present and of the right
  type, but it has no \<open>contributors\<close> field, so it is not a complete Project Record. The
  generator's record for the same summary is complete: \<open>contributors\<close> holds the
  contributor received, and \<open>[]\<close> on a network where the request fails.
\<close>

theorem client_record_lacks_contributors:
  "wf_summary (sample_repo ''portfolio'' 5) \<and>
   fst (fetchGitHubRepos (\<lambda>s. None) single_repo_net ''maryamali27'')
     = Inr [js_set (clientObj (sample_repo ''portfolio'' 5)) ''featured'' (JBool True)] \<and>
   base_fields_ok (js_set (clientObj (sample_repo ''portfolio'' 5)) ''featured'' (JBool True)) \<and>
   js_get (js_set (clientObj (sample_repo ''portfolio'' 5)) ''featured'' (JBool True)) ''contributors''
     = JUndef \<and>
   \<not> record_ok (js_set (clientObj (sample_repo ''portfolio'' 5)) ''featured'' (JBool True)) \<and>
   record_ok (project_of single_repo_net (sample_repo ''portfolio'' 5)) \<and>
   js_get (project_of single_repo_net (sample_repo ''portfolio'' 5)) ''contributors''
     = JArr [JObj [(''login'', JStr ''maryamali27''),
                   (''avatar'', JStr ''https://avatars.githubusercontent.com/u/1''),
                   (''url'', JStr ''https://github.com/maryamali27''),
                   (''contributions'', JNum 42)]] \<and>
   record_ok (project_of offline_net (sample_repo ''portfolio'' 5)) \<and>
   js_get (project_of offline_net (sample_repo ''portfolio'' 5)) ''contributors'' = JArr []"
  by code_simp

section \<open>Properties of the Enricher\<close>








section \<open>Properties of the client-side fallback\<close>

text \<open>
  C10. The client-side fallback issues exactly one request, whose query string is
  \<open>per_page=100&sort=updated\<close> with no page parameter, whatever the response is. When it
  succeeds, its records are the ranked images of the items of that single response, one
  record per item: at most 100 records when the page holds at most 100 items.
\<close>

theorem client_single_request:
  "snd (fetchGitHubRepos sn net username) =
     [''https://api.github.com/users/'' @ encodeURIComponent username @ ''/repos?per_page=100&sort=updated'']
   \<and> (\<forall>ps. fst (fetchGitHubRepos sn net username) = Inr ps \<longrightarrow>
        (\<exists>res rs. net (client_url username) = Resolved res \<and> body_json res = Some (JArr rs) \<and>
                  ps = rank sn (map clientObj rs) \<and> length ps = length rs \<and>
                  (length rs \<le> 100 \<longrightarrow> length ps \<le> 100)))"
proof -
  have len: "length (rank sn xs) = length xs" for xs
    by (simp add: rank_def Let_def length_js_sort)
  show ?thesis
    by (auto simp: fetchGitHubRepos_def client_url_def len
        split: fetched.splits option.splits jv.splits if_splits)
qed


lemma encode_username: "encodeURIComponent ''maryamali27'' = ''maryamali27''"
  by code_simp

theorem client_single_request_witness:
  "snd (fetchGitHubRepos (\<lambda>s. None) mock_client ''maryamali27'') =
     [''https://api.github.com/users/maryamali27/repos?per_page=100&sort=updated'']
   \<and> (\<exists>ps. fst (fetchGitHubRepos (\<lambda>s. None) mock_client ''maryamali27'') = Inr ps \<and> length ps = 100)"
proof -
  have n: "mock_client (client_url ''maryamali27'') = json_response (JArr (mock_pages 1))"
    by (simp add: mock_client_def)
  have nn: "\<not> list_ex nullish (mock_pages 1)"
    by (simp add: list_ex_iff mock_pages_def mock_items_def sample_repo_def)
  have f: "fst (fetchGitHubRepos (\<lambda>s. None) mock_client ''maryamali27'')
      = Inr (rank (\<lambda>s. None) (map clientObj (mock_pages 1)))"
    using nn by (simp add: fetchGitHubRepos_def n json_response_def)
  note t = client_single_request [of "\<lambda>s. None" mock_client "''maryamali27''"]
  from t f obtain res rs where r: "mock_client (client_url ''maryamali27'') = Resolved res"
    "body_json res = Some (JArr rs)"
    "length (rank (\<lambda>s. None) (map clientObj (mock_pages 1))) = length rs"
    by auto
  have "rs = mock_pages 1" using r(1,2) n by (auto simp: json_response_def)
  then have "length (rank (\<lambda>s. None) (map clientObj (mock_pages 1))) = 100"
    using r(3) length_mock_pages(1) by simp
  then show ?thesis using t f by (simp add: encode_username)
qed

end
